theory Spec2Isabelle
  imports Main "HOL-Library.Multiset"
begin

section \<open>Terms, atoms and rules\<close>

text \<open>
  A \<open>func_decl\<close> is compared by identity in the source; the pass reads its
  \<open>get_id()\<close> and \<open>get_arity()\<close> only.
\<close>

record func_decl =
  get_id :: nat
  get_arity :: nat

datatype expr = Var nat | App func_decl "expr list" | Quantifier expr

text \<open>An \<open>app\<close> is an application node: its declaration and its arguments.\<close>

type_synonym app = "func_decl \<times> expr list"

fun has_quantifiers :: "expr \<Rightarrow> bool" where
  "has_quantifiers (Var n) = False"
| "has_quantifiers (App f es) = (\<exists>e \<in> set es. has_quantifiers e)"
| "has_quantifiers (Quantifier e) = True"

definition app_has_quantifiers :: "app \<Rightarrow> bool" where
  "app_has_quantifiers a = (\<exists>e \<in> set (snd a). has_quantifiers e)"

text \<open>
  A rule keeps its tail in three consecutive segments: the positive uninterpreted atoms,
  the negated uninterpreted atoms, the interpreted constraints. The accessors below are
  the ones \<open>dl_mk_rule_inliner.cpp\<close> calls on a \<open>rule\<close>.
\<close>

record rule =
  r_head :: app
  r_pos :: "app list"
  r_neg :: "app list"
  r_interp :: "app list"

definition get_head :: "rule \<Rightarrow> app" where
  "get_head r = r_head r"

definition head_decl :: "rule \<Rightarrow> func_decl" where
  "head_decl r = fst (r_head r)"

definition get_positive_tail_size :: "rule \<Rightarrow> nat" where
  "get_positive_tail_size r = length (r_pos r)"

definition get_uninterpreted_tail_size :: "rule \<Rightarrow> nat" where
  "get_uninterpreted_tail_size r = length (r_pos r) + length (r_neg r)"

definition get_tail_size :: "rule \<Rightarrow> nat" where
  "get_tail_size r = length (r_pos r) + length (r_neg r) + length (r_interp r)"

definition get_tail :: "rule \<Rightarrow> nat \<Rightarrow> app" where
  "get_tail r i = (r_pos r @ r_neg r @ r_interp r) ! i"

definition get_decl :: "rule \<Rightarrow> nat \<Rightarrow> func_decl" where
  "get_decl r i = fst (get_tail r i)"

definition is_neg_tail :: "rule \<Rightarrow> nat \<Rightarrow> bool" where
  "is_neg_tail r i = (length (r_pos r) \<le> i \<and> i < length (r_pos r) + length (r_neg r))"

text \<open>
  A stratum is a non-empty set of predicates; \<open>*stratum->begin()\<close> is its first
  component. The stratifier of a closed rule set gives the strata in topological order
  and the stratum number of a predicate.
\<close>

type_synonym item_set = "func_decl \<times> func_decl list"

definition stratum_size :: "item_set \<Rightarrow> nat" where
  "stratum_size s = Suc (length (snd s))"

record rule_stratifier =
  get_strats :: "item_set list"
  get_predicate_strat :: "func_decl \<Rightarrow> nat"

record rule_set =
  rs_rules :: "rule list"
  get_stratifier :: rule_stratifier

definition get_predicate_rules :: "rule list \<Rightarrow> func_decl \<Rightarrow> rule list" where
  "get_predicate_rules rs p = filter (\<lambda>r. head_decl r = p) rs"

section \<open>External collaborators\<close>

text \<open>
  The substitution primitive, the rule manager, the interpreted simplifier, the
  stratifier, the unification index and the configuration are not part of
  \<open>dl_mk_rule_inliner.cpp\<close>; the pass is parameterised by them. \<open>'s\<close> is the
  type of substitutions.
\<close>

record 's env =
  is_output_predicate :: "func_decl \<Rightarrow> bool"
  collect_non_empty_predicates :: "func_decl set"
  fix_unbound_vars :: bool
  inline_linear_param :: bool
  inline_linear_branch :: bool
  get_max_var :: "rule \<Rightarrow> nat"
  get_vars :: "rule \<Rightarrow> nat"
  m_unif :: "app \<Rightarrow> app \<Rightarrow> 's option"
  subst_apply :: "'s \<Rightarrow> nat \<Rightarrow> nat \<Rightarrow> expr \<Rightarrow> expr"
  remove_duplicate_tails :: "(app \<times> bool) list \<Rightarrow> (app \<times> bool) list"
  rm_mk :: "app \<Rightarrow> (app \<times> bool) list \<Rightarrow> rule"
  norm_vars :: "rule \<Rightarrow> rule"
  rm_fix_unbound_vars :: "rule \<Rightarrow> rule"
  interp_simplifier :: "rule \<Rightarrow> rule option"
  stratify :: "rule list \<Rightarrow> rule_stratifier"
  st_unify :: "app \<Rightarrow> app \<Rightarrow> bool"

section \<open>State of the pass\<close>

text \<open>
  A resolution record of the proof converter: target, source, tail index, the two rule
  substitutions and the resolvent. The model converter of the pass records the rules
  handed to \<open>datalog::del_rule\<close>.
\<close>

type_synonym resolution = "rule \<times> rule \<times> nat \<times> expr list \<times> expr list \<times> rule"

record inliner =
  m_preds_with_facts :: "func_decl set"
  m_preds_with_neg_occurrence :: "func_decl set"
  m_forbidden_preds :: "func_decl set"
  m_head_pred_ctr :: "func_decl \<Rightarrow> nat"
  m_head_pred_non_empty_tails_ctr :: "func_decl \<Rightarrow> nat"
  m_tail_pred_ctr :: "func_decl \<Rightarrow> nat"
  m_inlined_rules :: "rule list"
  m_mc :: "rule list option"
  m_pc :: "resolution list option"

definition init_inliner :: inliner where
  "init_inliner =
     \<lparr> m_preds_with_facts = {}, m_preds_with_neg_occurrence = {}, m_forbidden_preds = {},
       m_head_pred_ctr = (\<lambda>p. 0), m_head_pred_non_empty_tails_ctr = (\<lambda>p. 0),
       m_tail_pred_ctr = (\<lambda>p. 0), m_inlined_rules = [], m_mc = None, m_pc = None \<rparr>"

text \<open>\<open>datalog::del_rule(mc, r)\<close> records \<open>r\<close> when a model converter is present.\<close>

definition mc_del_rule :: "inliner \<Rightarrow> rule \<Rightarrow> inliner" where
  "mc_del_rule st r =
     (case m_mc st of None \<Rightarrow> st | Some recs \<Rightarrow> st\<lparr>m_mc := Some (recs @ [r])\<rparr>)"

section \<open>The rule unifier\<close>

text \<open>
  \<open>unify_rules\<close> leaves the unifier ready with a substitution and the variable offset
  of the source rule (\<open>m_deltas[1]\<close>); the model returns both, \<open>None\<close> when the
  unifier is not ready.
\<close>

definition unify_rules :: "'s env \<Rightarrow> rule \<Rightarrow> nat \<Rightarrow> rule \<Rightarrow> ('s \<times> nat) option" where
  "unify_rules env tgt tgt_idx src =
     (let var_cnt = max (get_max_var env tgt) (get_max_var env src) + 1
      in case m_unif env (get_tail tgt tgt_idx) (get_head src) of
           None \<Rightarrow> None
         | Some s \<Rightarrow> Some (s, var_cnt))"

definition to_app :: "expr \<Rightarrow> app" where
  "to_app e = (case e of App f es \<Rightarrow> (f, es))"

definition apply_app :: "'s env \<Rightarrow> 's \<times> nat \<Rightarrow> app \<Rightarrow> bool \<Rightarrow> app" where
  "apply_app env u a is_tgt =
     to_app (subst_apply env (fst u) (snd u) (if is_tgt then 0 else 1) (App (fst a) (snd a)))"

definition apply_tail ::
  "'s env \<Rightarrow> 's \<times> nat \<Rightarrow> rule \<Rightarrow> bool \<Rightarrow> nat option \<Rightarrow> (app \<times> bool) list" where
  "apply_tail env u r is_tgt skipped_index =
     map (\<lambda>i. (apply_app env u (get_tail r i) is_tgt, is_neg_tail r i))
       (filter (\<lambda>i. Some i \<noteq> skipped_index) [0 ..< get_tail_size r])"

definition apply_rules :: "'s env \<Rightarrow> 's \<times> nat \<Rightarrow> rule \<Rightarrow> nat \<Rightarrow> rule \<Rightarrow> rule option" where
  "apply_rules env u tgt tail_index src =
     (let new_head = apply_app env u (get_head tgt) True;
          tail = apply_tail env u tgt True (Some tail_index) @ apply_tail env u src False None;
          tail = remove_duplicate_tails env tail;
          res = rm_mk env new_head tail;
          res = norm_vars env res;
          res = (if fix_unbound_vars env then rm_fix_unbound_vars env res else res)
      in interp_simplifier env res)"

definition get_rule_subst :: "'s env \<Rightarrow> 's \<times> nat \<Rightarrow> rule \<Rightarrow> bool \<Rightarrow> expr list" where
  "get_rule_subst env u r is_tgt =
     map (\<lambda>i. subst_apply env (fst u) (snd u) (if is_tgt then 0 else 1) (Var i))
       [0 ..< get_vars env r]"

section \<open>Inlining one rule into another\<close>

definition has_quantifier :: "rule \<Rightarrow> bool" where
  "has_quantifier r = (\<exists>a \<in> set (r_interp r). app_has_quantifiers a)"

text \<open>
  \<open>try_to_inline_rule\<close> renames the variables of \<open>tgt\<close> in place before anything
  else; the model returns the renamed target with the result.
\<close>

definition try_to_inline_rule ::
  "'s env \<Rightarrow> inliner \<Rightarrow> rule \<Rightarrow> rule \<Rightarrow> nat \<Rightarrow> rule \<times> rule option \<times> inliner" where
  "try_to_inline_rule env st tgt0 src tail_index =
     (let tgt = norm_vars env tgt0
      in if has_quantifier src then (tgt, None, st)
         else case unify_rules env tgt tail_index src of
                None \<Rightarrow> (tgt, None, st)
              | Some u \<Rightarrow>
                  (case apply_rules env u tgt tail_index src of
                     Some res \<Rightarrow>
                       (tgt, Some res,
                        (case m_pc st of
                           None \<Rightarrow> st
                         | Some recs \<Rightarrow>
                             st\<lparr>m_pc := Some (recs @
                               [(tgt, src, tail_index, get_rule_subst env u tgt True,
                                 get_rule_subst env u src False, res)])\<rparr>))
                   | None \<Rightarrow> (tgt, None, st)))"

section \<open>Planning\<close>

text \<open>
  The three counters are \<open>ast_counter\<close>s: a missing key reads as 0, and the counts
  never go below 0, so they are natural numbers here.
\<close>

definition inc :: "(func_decl \<Rightarrow> nat) \<Rightarrow> func_decl \<Rightarrow> (func_decl \<Rightarrow> nat)" where
  "inc c p = c(p := c p + 1)"

text \<open>The uninterpreted tail of a rule with the negation flag of each position.\<close>

definition uninterpreted_tail :: "rule \<Rightarrow> (app \<times> bool) list" where
  "uninterpreted_tail r = map (\<lambda>a. (a, False)) (r_pos r) @ map (\<lambda>a. (a, True)) (r_neg r)"

definition count_tail_atom :: "inliner \<Rightarrow> app \<times> bool \<Rightarrow> inliner" where
  "count_tail_atom st t =
     (let pred = fst (fst t);
          st = st\<lparr>m_tail_pred_ctr := inc (m_tail_pred_ctr st) pred\<rparr>
      in if snd t
         then st\<lparr>m_preds_with_neg_occurrence := insert pred (m_preds_with_neg_occurrence st)\<rparr>
         else st)"

definition count_rule :: "inliner \<Rightarrow> rule \<Rightarrow> inliner" where
  "count_rule st r =
     (let head_pred = head_decl r;
          st = st\<lparr>m_head_pred_ctr := inc (m_head_pred_ctr st) head_pred\<rparr>;
          st = (if get_tail_size r > 0
                then st\<lparr>m_head_pred_non_empty_tails_ctr :=
                          inc (m_head_pred_non_empty_tails_ctr st) head_pred\<rparr>
                else st)
      in foldl count_tail_atom st (uninterpreted_tail r))"

definition count_pred_occurrences :: "'s env \<Rightarrow> inliner \<Rightarrow> rule list \<Rightarrow> inliner" where
  "count_pred_occurrences env st orig =
     foldl count_rule
       (st\<lparr>m_preds_with_facts := m_preds_with_facts st \<union> collect_non_empty_predicates env\<rparr>)
       orig"

definition inlining_allowed :: "'s env \<Rightarrow> inliner \<Rightarrow> func_decl \<Rightarrow> bool" where
  "inlining_allowed env st pred =
     (if is_output_predicate env pred \<or> pred \<in> m_preds_with_facts st \<or>
         pred \<in> m_preds_with_neg_occurrence st \<or> pred \<in> m_forbidden_preds st
      then False
      else m_head_pred_ctr st pred \<le> 1 \<or>
           (m_tail_pred_ctr st pred \<le> 1 \<and> m_head_pred_ctr st pred \<le> 4))"

definition close_rules :: "'s env \<Rightarrow> rule list \<Rightarrow> rule_set" where
  "close_rules env rs = \<lparr> rs_rules = rs, get_stratifier = stratify env rs \<rparr>"

definition create_allowed_rule_set :: "'s env \<Rightarrow> inliner \<Rightarrow> rule list \<Rightarrow> rule_set" where
  "create_allowed_rule_set env st orig =
     close_rules env (filter (\<lambda>r. inlining_allowed env st (head_decl r)) orig)"

fun forbid_strata :: "inliner \<Rightarrow> item_set list \<Rightarrow> bool \<Rightarrow> inliner \<times> bool" where
  "forbid_strata st [] something_forbidden = (st, something_forbidden)"
| "forbid_strata st (stratum # comps) something_forbidden =
     (if stratum_size stratum = 1 then forbid_strata st comps something_forbidden
      else forbid_strata
             (st\<lparr>m_forbidden_preds := insert (fst stratum) (m_forbidden_preds st)\<rparr>)
             comps True)"

definition forbid_preds_from_cycles :: "inliner \<Rightarrow> rule_set \<Rightarrow> inliner \<times> bool" where
  "forbid_preds_from_cycles st r = forbid_strata st (get_strats (get_stratifier r)) False"

subsection \<open>The multiplier guard\<close>

text \<open>
  One visit of a positive tail predicate in the first loop of
  \<open>forbid_multiple_multipliers\<close>. The loop state is the pass state, the flag
  \<open>is_multi_head_pred\<close> and \<open>something_forbidden\<close>; the second component of the
  result is True when the source jumps to \<open>process_next_pred\<close>.
\<close>

definition mm_tail_step ::
  "'s env \<Rightarrow> func_decl \<Rightarrow> bool \<Rightarrow> inliner \<times> bool \<times> bool \<Rightarrow> func_decl \<Rightarrow>
   (inliner \<times> bool \<times> bool) \<times> bool" where
  "mm_tail_step env head_pred is_multi_occurrence_pred s tail_pred =
     (case s of (st, is_multi_head_pred, something_forbidden) \<Rightarrow>
        if \<not> inlining_allowed env st tail_pred then (s, False)
        else let tail_pred_head_cnt = m_head_pred_ctr st tail_pred
             in if tail_pred_head_cnt \<le> 1 then (s, False)
                else if is_multi_head_pred
                then ((st\<lparr>m_forbidden_preds := insert head_pred (m_forbidden_preds st)\<rparr>,
                       is_multi_head_pred, True), True)
                else if is_multi_occurrence_pred
                then ((st\<lparr>m_forbidden_preds := insert tail_pred (m_forbidden_preds st)\<rparr>,
                       is_multi_head_pred, True), False)
                else ((st\<lparr>m_head_pred_ctr := (m_head_pred_ctr st)
                              (head_pred := m_head_pred_ctr st head_pred * tail_pred_head_cnt)\<rparr>,
                       True, something_forbidden), False))"

fun mm_tail_loop ::
  "'s env \<Rightarrow> func_decl \<Rightarrow> bool \<Rightarrow> inliner \<times> bool \<times> bool \<Rightarrow> app list \<Rightarrow>
   (inliner \<times> bool \<times> bool) \<times> bool" where
  "mm_tail_loop env head_pred imo s [] = (s, False)"
| "mm_tail_loop env head_pred imo s (a # as) =
     (case mm_tail_step env head_pred imo s (fst a) of
        (s', True) \<Rightarrow> (s', True)
      | (s', False) \<Rightarrow> mm_tail_loop env head_pred imo s' as)"

fun mm_rule_loop ::
  "'s env \<Rightarrow> func_decl \<Rightarrow> bool \<Rightarrow> inliner \<times> bool \<times> bool \<Rightarrow> rule list \<Rightarrow>
   (inliner \<times> bool \<times> bool) \<times> bool" where
  "mm_rule_loop env head_pred imo s [] = (s, False)"
| "mm_rule_loop env head_pred imo s (r # rs) =
     (case mm_tail_loop env head_pred imo s (r_pos r) of
        (s', True) \<Rightarrow> (s', True)
      | (s', False) \<Rightarrow> mm_rule_loop env head_pred imo s' rs)"

definition mm_stratum ::
  "'s env \<Rightarrow> rule_set \<Rightarrow> inliner \<times> bool \<Rightarrow> item_set \<Rightarrow> inliner \<times> bool" where
  "mm_stratum env proposed_inlined_rules s stratum =
     (case s of (st, something_forbidden) \<Rightarrow>
        let head_pred = fst stratum;
            is_multi_head_pred = (m_head_pred_ctr st head_pred > 1);
            is_multi_occurrence_pred = (m_tail_pred_ctr st head_pred > 1);
            pred_rules = get_predicate_rules (rs_rules proposed_inlined_rules) head_pred
        in case mm_rule_loop env head_pred is_multi_occurrence_pred
                  (st, is_multi_head_pred, something_forbidden) pred_rules of
             ((st', imh, sf), jumped) \<Rightarrow> (st', sf))"

text \<open>The second loop, over the rules whose head is not inlined.\<close>

definition mm_orig_tail_step ::
  "'s env \<Rightarrow> inliner \<times> bool \<times> bool \<Rightarrow> app \<Rightarrow> inliner \<times> bool \<times> bool" where
  "mm_orig_tail_step env s a =
     (case s of (st, has_multi_head_pred, something_forbidden) \<Rightarrow>
        let pred = fst a
        in if \<not> inlining_allowed env st pred then s
           else if m_head_pred_ctr st pred \<le> 1 then s
           else if has_multi_head_pred
           then (st\<lparr>m_forbidden_preds := insert pred (m_forbidden_preds st)\<rparr>,
                 has_multi_head_pred, True)
           else (st, True, something_forbidden))"

definition mm_orig_rule :: "'s env \<Rightarrow> inliner \<times> bool \<Rightarrow> rule \<Rightarrow> inliner \<times> bool" where
  "mm_orig_rule env s r =
     (case s of (st, something_forbidden) \<Rightarrow>
        if inlining_allowed env st (head_decl r) then s
        else case foldl (mm_orig_tail_step env) (st, False, something_forbidden) (r_pos r) of
               (st', hm, sf) \<Rightarrow> (st', sf))"

definition forbid_multiple_multipliers ::
  "'s env \<Rightarrow> inliner \<Rightarrow> rule list \<Rightarrow> rule_set \<Rightarrow> inliner \<times> bool" where
  "forbid_multiple_multipliers env st orig proposed_inlined_rules =
     foldl (mm_orig_rule env)
       (foldl (mm_stratum env proposed_inlined_rules) (st, False)
          (get_strats (get_stratifier proposed_inlined_rules)))
       orig"

section \<open>Bulk inlining\<close>

text \<open>
  The index the scan \<open>for (; i < pt_len && !inlining_allowed(r->get_decl(i)); ++i)\<close>
  stops at.
\<close>

definition first_allowed_index :: "'s env \<Rightarrow> inliner \<Rightarrow> rule \<Rightarrow> nat" where
  "first_allowed_index env st r =
     length (takeWhile (\<lambda>a. \<not> inlining_allowed env st (fst a)) (r_pos r))"

text \<open>
  The inner loop of \<open>transform_rule\<close>: every rule of \<open>pred_rules\<close> is tried on
  \<open>r\<close> at position \<open>i\<close>; the results are returned in the order they are pushed.
\<close>

fun inline_rules ::
  "'s env \<Rightarrow> inliner \<Rightarrow> rule \<Rightarrow> rule list \<Rightarrow> nat \<Rightarrow> rule \<times> rule list \<times> inliner" where
  "inline_rules env st r [] i = (r, [], st)"
| "inline_rules env st r (inl_rule # rest) i =
     (case try_to_inline_rule env st r inl_rule i of
        (r', inl_result, st') \<Rightarrow>
          (case inline_rules env st' r' rest i of
             (r'', results, st'') \<Rightarrow>
               (r'', (case inl_result of None \<Rightarrow> results | Some x \<Rightarrow> x # results), st'')))"

text \<open>
  The worklist loop of \<open>transform_rule\<close>. The stack \<open>todo\<close> has its top at the head
  of the list. \<open>plan_inlining\<close> calls \<open>transform_rule\<close> with \<open>m_inlined_rules\<close>
  itself as the target: then (\<open>alias\<close>) the rules of a predicate are looked up in the
  target.
\<close>

partial_function (option) transform_rule_loop ::
  "'s env \<Rightarrow> bool \<Rightarrow> inliner \<Rightarrow> rule list \<Rightarrow> rule list \<Rightarrow> bool \<Rightarrow>
   (inliner \<times> rule list \<times> bool) option" where
  "transform_rule_loop env alias st tgt todo modified =
     (case todo of
        [] \<Rightarrow> Some (st, tgt, modified)
      | r # todo' \<Rightarrow>
          let pt_len = get_positive_tail_size r;
              i = first_allowed_index env st r
          in if has_quantifier r then transform_rule_loop env alias st tgt todo' modified
             else if i = pt_len then transform_rule_loop env alias st (tgt @ [r]) todo' modified
             else
               let pred = get_decl r i;
                   pred_rules =
                     get_predicate_rules (if alias then tgt else m_inlined_rules st) pred
               in case inline_rules env st r pred_rules i of
                    (r', results, st') \<Rightarrow>
                      transform_rule_loop env alias st' tgt (rev results @ todo') True)"

declare transform_rule_loop.simps [code]

definition transform_rule ::
  "'s env \<Rightarrow> bool \<Rightarrow> inliner \<Rightarrow> rule \<Rightarrow> rule list \<Rightarrow> (inliner \<times> rule list \<times> bool) option" where
  "transform_rule env alias st r0 tgt = transform_rule_loop env alias st tgt [r0] False"

fun transform_rules ::
  "'s env \<Rightarrow> inliner \<Rightarrow> rule list \<Rightarrow> rule list \<Rightarrow> bool \<Rightarrow>
   (inliner \<times> rule list \<times> bool) option" where
  "transform_rules env st [] tgt something_done = Some (st, tgt, something_done)"
| "transform_rules env st (r # rs) tgt something_done =
     (if inlining_allowed env st (head_decl r)
      then transform_rules env st rs tgt something_done
      else case transform_rule env False st r tgt of
             None \<Rightarrow> None
           | Some (st', tgt', modified) \<Rightarrow>
               transform_rules env st' rs tgt' (something_done \<or> modified))"

subsection \<open>Planning the inlined rule set\<close>

partial_function (option) forbid_cycles_loop ::
  "'s env \<Rightarrow> inliner \<Rightarrow> rule list \<Rightarrow> rule_set \<Rightarrow> (inliner \<times> rule_set) option" where
  "forbid_cycles_loop env st orig candidate_inlined_set =
     (case forbid_preds_from_cycles st candidate_inlined_set of
        (st', forbidden) \<Rightarrow>
          if forbidden
          then forbid_cycles_loop env st' orig (create_allowed_rule_set env st' orig)
          else Some (st', candidate_inlined_set))"

declare forbid_cycles_loop.simps [code]

fun plan_pred_rules :: "'s env \<Rightarrow> inliner \<Rightarrow> rule list \<Rightarrow> inliner option" where
  "plan_pred_rules env st [] = Some st"
| "plan_pred_rules env st (r # rs) =
     (case transform_rule env True st r (m_inlined_rules st) of
        None \<Rightarrow> None
      | Some (st', tgt', modified) \<Rightarrow>
          plan_pred_rules env (st'\<lparr>m_inlined_rules := tgt'\<rparr>) rs)"

fun plan_strata :: "'s env \<Rightarrow> inliner \<Rightarrow> rule_set \<Rightarrow> item_set list \<Rightarrow> inliner option" where
  "plan_strata env st candidate [] = Some st"
| "plan_strata env st candidate (stratum # comps) =
     (case plan_pred_rules env st (get_predicate_rules (rs_rules candidate) (fst stratum)) of
        None \<Rightarrow> None
      | Some st' \<Rightarrow> plan_strata env st' candidate comps)"

definition plan_inlining :: "'s env \<Rightarrow> inliner \<Rightarrow> rule list \<Rightarrow> inliner option" where
  "plan_inlining env st0 orig =
     (let st1 = count_pred_occurrences env st0 orig
      in case forbid_cycles_loop env st1 orig (create_allowed_rule_set env st1 orig) of
           None \<Rightarrow> None
         | Some (st2, candidate) \<Rightarrow>
             (case forbid_multiple_multipliers env st2 orig candidate of
                (st3, forbidden) \<Rightarrow>
                  let candidate' =
                        (if forbidden then create_allowed_rule_set env st3 orig else candidate)
                  in plan_strata env st3 candidate' (get_strats (get_stratifier candidate'))))"

section \<open>Eager inlining\<close>

fun oriented_tail :: "rule_stratifier \<Rightarrow> func_decl \<Rightarrow> nat \<Rightarrow> nat \<Rightarrow> app list \<Rightarrow> bool" where
  "oriented_tail strat head_pred head_strat head_arity [] = True"
| "oriented_tail strat head_pred head_strat head_arity (a # as) =
     (let pred = fst a;
          pred_strat = get_predicate_strat strat pred
      in if pred_strat = head_strat \<and>
            (get_arity pred > head_arity \<or>
             (get_arity pred = head_arity \<and> get_id pred \<ge> get_id head_pred))
         then False
         else oriented_tail strat head_pred head_strat head_arity as)"

definition is_oriented_rewriter :: "rule \<Rightarrow> rule_stratifier \<Rightarrow> bool" where
  "is_oriented_rewriter r strat =
     (let head_pred = head_decl r;
          head_strat = get_predicate_strat strat head_pred;
          head_arity = get_arity head_pred
      in oriented_tail strat head_pred head_strat head_arity (r_pos r))"

text \<open>
  The search for the inlining candidate among several rules of a predicate. The result
  is \<open>None\<close> when a second unifying rule is met (the source jumps to
  \<open>process_next_tail\<close>), otherwise the candidate, which may be null.
\<close>

fun find_candidate ::
  "'s env \<Rightarrow> rule \<Rightarrow> nat \<Rightarrow> rule list \<Rightarrow> rule option \<Rightarrow> rule option option" where
  "find_candidate env r ti [] inlining_candidate = Some inlining_candidate"
| "find_candidate env r ti (pred_rule # rest) inlining_candidate =
     (if unify_rules env r ti pred_rule = None
      then find_candidate env r ti rest inlining_candidate
      else if inlining_candidate \<noteq> None then None
      else find_candidate env r ti rest (Some pred_rule))"

definition select_candidate ::
  "'s env \<Rightarrow> rule \<Rightarrow> nat \<Rightarrow> rule list \<Rightarrow> rule option option" where
  "select_candidate env r ti pred_rules =
     (let rule_cnt = length pred_rules
      in if rule_cnt = 0 then Some None
         else if rule_cnt = 1 then Some (Some (pred_rules ! 0))
         else find_candidate env r ti pred_rules None)"

text \<open>
  \<open>do_eager_inlining(rule * r, rule_set const& rules, rule_ref& res)\<close>: the loop over
  the positive tail positions. The result is the returned flag, \<open>res\<close> (\<open>None\<close>
  for the null rule) and the state of the pass.
\<close>

fun eager_tails ::
  "'s env \<Rightarrow> inliner \<Rightarrow> rule \<Rightarrow> rule_set \<Rightarrow> nat list \<Rightarrow> bool \<times> rule option \<times> inliner" where
  "eager_tails env st r rules [] = (False, None, st)"
| "eager_tails env st r rules (ti # tis) =
     (let pred = get_decl r ti
      in if pred = head_decl r \<or> pred \<in> m_preds_with_facts st
         then eager_tails env st r rules tis
         else
           (case select_candidate env r ti (get_predicate_rules (rs_rules rules) pred) of
              None \<Rightarrow> eager_tails env st r rules tis
            | Some None \<Rightarrow> (True, None, mc_del_rule st r)
            | Some (Some inlining_candidate) \<Rightarrow>
                if \<not> is_oriented_rewriter inlining_candidate (get_stratifier rules)
                then eager_tails env st r rules tis
                else (case try_to_inline_rule env st r inlining_candidate ti of
                        (r', Some res, st') \<Rightarrow> (True, Some res, st')
                      | (r', None, st') \<Rightarrow> (True, None, mc_del_rule st' r'))))"

definition do_eager_inlining_rule ::
  "'s env \<Rightarrow> inliner \<Rightarrow> rule \<Rightarrow> rule_set \<Rightarrow> bool \<times> rule option \<times> inliner" where
  "do_eager_inlining_rule env st r rules =
     eager_tails env st r rules [0 ..< get_positive_tail_size r]"

text \<open>\<open>while (r && do_eager_inlining(r, *rules, replacement))\<close>.\<close>

partial_function (option) eager_while ::
  "'s env \<Rightarrow> inliner \<Rightarrow> rule_set \<Rightarrow> rule option \<Rightarrow> bool \<Rightarrow>
   (inliner \<times> rule option \<times> bool) option" where
  "eager_while env st rules r done_something =
     (case r of
        None \<Rightarrow> Some (st, None, done_something)
      | Some r' \<Rightarrow>
          (case do_eager_inlining_rule env st r' rules of
             (changed, replacement, st') \<Rightarrow>
               if changed then eager_while env st' rules replacement True
               else Some (st', Some r', done_something)))"

declare eager_while.simps [code]

fun eager_rules ::
  "'s env \<Rightarrow> inliner \<Rightarrow> rule_set \<Rightarrow> rule list \<Rightarrow> rule list \<Rightarrow> bool \<Rightarrow>
   (inliner \<times> rule list \<times> bool) option" where
  "eager_rules env st rules [] res done_something = Some (st, res, done_something)"
| "eager_rules env st rules (r # rs) res done_something =
     (case eager_while env st rules (Some r) done_something of
        None \<Rightarrow> None
      | Some (st', r', done') \<Rightarrow>
          eager_rules env st' rules rs (case r' of None \<Rightarrow> res | Some x \<Rightarrow> res @ [x]) done')"

definition do_eager_inlining ::
  "'s env \<Rightarrow> inliner \<Rightarrow> rule_set \<Rightarrow> (inliner \<times> rule list \<times> bool) option" where
  "do_eager_inlining env st rules =
     (case eager_rules env st rules (rs_rules rules) [] False of
        None \<Rightarrow> None
      | Some (st', res, done_something) \<Rightarrow>
          Some (st', if done_something then res else rs_rules rules, done_something))"

section \<open>Linear inlining\<close>

text \<open>
  The two visitors keep, for every indexed atom, the positions of the rules it occurs in
  (\<open>m_positions\<close>); the head visitor also holds the flags \<open>can_remove\<close> and
  \<open>can_expand\<close>. A query of a unification index appends the positions of every
  indexed atom that unifies with the query.
\<close>

record linear =
  head_positions :: "(app \<times> nat list) list"
  tail_positions :: "(app \<times> nat list) list"
  can_remove :: "bool list"
  can_expand :: "bool list"
  valid :: "bool list"
  acc :: "rule list"

fun add_position :: "(app \<times> nat list) list \<Rightarrow> app \<Rightarrow> nat \<Rightarrow> (app \<times> nat list) list" where
  "add_position [] e j = [(e, [j])]"
| "add_position (kv # m) e j =
     (if fst kv = e then (fst kv, snd kv @ [j]) # m else kv # add_position m e j)"

fun del_position :: "(app \<times> nat list) list \<Rightarrow> app \<Rightarrow> nat \<Rightarrow> (app \<times> nat list) list" where
  "del_position [] e j = []"
| "del_position (kv # m) e j =
     (if fst kv = e then (fst kv, remove1 j (snd kv)) # m else kv # del_position m e j)"

definition index_unify :: "'s env \<Rightarrow> (app \<times> nat list) list \<Rightarrow> app \<Rightarrow> nat list" where
  "index_unify env positions e =
     concat (map snd (filter (\<lambda>kv. st_unify env e (fst kv)) positions))"

definition add_rule :: "'s env \<Rightarrow> inliner \<Rightarrow> linear \<Rightarrow> rule \<Rightarrow> nat \<Rightarrow> linear" where
  "add_rule env st ls0 r i =
     (let head = get_head r;
          headd = fst head;
          ls1 = ls0\<lparr>head_positions := add_position (head_positions ls0) head i\<rparr>;
          ls2 = (if is_output_predicate env headd \<or> headd \<in> m_preds_with_facts st
                 then ls1\<lparr>can_remove := (can_remove ls1)[i := False]\<rparr>
                 else ls1);
          tl_sz = get_uninterpreted_tail_size r;
          ls3 = ls2\<lparr>tail_positions :=
                  foldl (\<lambda>m j. add_position m (get_tail r j) i) (tail_positions ls2) [0 ..< tl_sz]\<rparr>;
          can_exp = (tl_sz = 1 \<and> get_positive_tail_size r = 1 \<and>
                     get_decl r 0 \<notin> m_preds_with_facts st \<and>
                     \<not> is_output_predicate env (get_decl r 0))
      in ls3\<lparr>can_expand := (can_expand ls3)[i := can_exp]\<rparr>)"

definition del_rule :: "linear \<Rightarrow> rule \<Rightarrow> nat \<Rightarrow> linear" where
  "del_rule ls r i =
     ls\<lparr>head_positions := del_position (head_positions ls) (get_head r) i,
        tail_positions :=
          foldl (\<lambda>m j. del_position m (get_tail r j) i) (tail_positions ls)
            [0 ..< get_uninterpreted_tail_size r]\<rparr>"

text \<open>
  One round of the \<open>while (true)\<close> loop of \<open>inline_linear\<close> at position \<open>i\<close>. The
  first component of the result is False when the round ends in \<open>break\<close>.
\<close>

definition linear_step :: "'s env \<Rightarrow> inliner \<Rightarrow> linear \<Rightarrow> nat \<Rightarrow> bool \<times> inliner \<times> linear" where
  "linear_step env st ls i =
     (let r = acc ls ! i
      in if \<not> valid ls ! i then (False, st, ls)
         else if \<not> can_expand ls ! i then (False, st, ls)
         else
           let head_unifiers = index_unify env (head_positions ls) (get_tail r 0);
               num_head_unifiers = length head_unifiers
           in if num_head_unifiers \<noteq> 1 then (False, st, ls)
              else
                let j = head_unifiers ! 0
                in if \<not> can_remove ls ! j \<or> \<not> valid ls ! j \<or> i = j then (False, st, ls)
                   else
                     let r2 = acc ls ! j;
                         tail_unifiers = index_unify env (tail_positions ls) (get_head r2);
                         num_tail_unifiers = length tail_unifiers
                     in if \<not> inline_linear_branch env \<and> num_tail_unifiers \<noteq> 1
                        then (False, st, ls)
                        else
                          (case try_to_inline_rule env st r r2 0 of
                             (r', None, st') \<Rightarrow> (False, st', ls\<lparr>acc := (acc ls)[i := r']\<rparr>)
                           | (r', Some rl_res, st') \<Rightarrow>
                               let ls1 = del_rule ls r' i;
                                   ls2 = add_rule env st' ls1 rl_res i;
                                   ls3 = ls2\<lparr>acc := (acc ls2)[i := rl_res]\<rparr>;
                                   ls4 = ls3\<lparr>can_expand := (can_expand ls3)[i := can_expand ls3 ! j]\<rparr>
                               in if num_tail_unifiers = 1
                                  then (True, mc_del_rule st' r2,
                                        del_rule (ls4\<lparr>valid := (valid ls4)[j := False]\<rparr>) r2 j)
                                  else (True, st', ls4)))"

partial_function (option) linear_while ::
  "'s env \<Rightarrow> inliner \<Rightarrow> linear \<Rightarrow> nat \<Rightarrow> bool \<Rightarrow> (inliner \<times> linear \<times> bool) option" where
  "linear_while env st ls i done_something =
     (case linear_step env st ls i of
        (continue, st', ls') \<Rightarrow>
          if continue then linear_while env st' ls' i True
          else Some (st', ls', done_something))"

declare linear_while.simps [code]

fun linear_for ::
  "'s env \<Rightarrow> inliner \<Rightarrow> linear \<Rightarrow> nat list \<Rightarrow> bool \<Rightarrow> (inliner \<times> linear \<times> bool) option" where
  "linear_for env st ls [] done_something = Some (st, ls, done_something)"
| "linear_for env st ls (i # is) done_something =
     (case linear_while env st ls i done_something of
        None \<Rightarrow> None
      | Some (st', ls', done') \<Rightarrow> linear_for env st' ls' is done')"

definition linear_init :: "'s env \<Rightarrow> inliner \<Rightarrow> rule list \<Rightarrow> linear" where
  "linear_init env st rules =
     (let sz = length rules
      in foldl (\<lambda>ls i. add_rule env st ls (acc ls ! i) i)
           \<lparr> head_positions = [], tail_positions = [], can_remove = replicate sz True,
             can_expand = replicate sz True, valid = replicate sz True, acc = rules \<rparr>
           [0 ..< sz])"

definition valid_rules :: "linear \<Rightarrow> rule list" where
  "valid_rules ls = map fst (filter snd (zip (acc ls) (valid ls)))"

definition inline_linear ::
  "'s env \<Rightarrow> inliner \<Rightarrow> rule list \<Rightarrow> (inliner \<times> rule list \<times> bool) option" where
  "inline_linear env st rules =
     (case linear_for env st (linear_init env st rules) [0 ..< length rules] False of
        None \<Rightarrow> None
      | Some (st', ls', done_something) \<Rightarrow> Some (st', valid_rules ls', done_something))"

section \<open>The pass\<close>

text \<open>
  The converters of the host are opaque; \<open>concat\<close> builds a new converter from the
  host's and the one the pass filled.
\<close>

datatype 'h converter =
    Host 'h
  | Horn_subsume "rule list"
  | Replace_proof "resolution list"
  | Concat "'h converter" "'h converter"

text \<open>
  The three stages of \<open>operator()\<close>, with the flag each of them returns: bulk inlining
  (\<open>transform_rules\<close>), eager inlining, and linear inlining when \<open>:inline-linear\<close> is
  set.
\<close>

definition run_stages ::
  "'s env \<Rightarrow> inliner \<Rightarrow> rule list \<Rightarrow> (inliner \<times> rule list \<times> bool \<times> bool \<times> bool) option" where
  "run_stages env st0 source =
     (case plan_inlining env st0 source of
        None \<Rightarrow> None
      | Some st1 \<Rightarrow>
          (case transform_rules env st1 source [] False of
             None \<Rightarrow> None
           | Some (st2, res2, bulk_done) \<Rightarrow>
               (case do_eager_inlining env st2 (close_rules env res2) of
                  None \<Rightarrow> None
                | Some (st3, res3, eager_done) \<Rightarrow>
                    if inline_linear_param env
                    then (case inline_linear env st3 res3 of
                            None \<Rightarrow> None
                          | Some (st4, res4, linear_done) \<Rightarrow>
                              Some (st4, res4, bulk_done, eager_done, linear_done))
                    else Some (st3, res3, bulk_done, eager_done, False))))"

definition own_mc :: "inliner \<Rightarrow> 'h converter" where
  "own_mc st = Horn_subsume (case m_mc st of None \<Rightarrow> [] | Some recs \<Rightarrow> recs)"

definition own_pc :: "inliner \<Rightarrow> 'h converter" where
  "own_pc st = Replace_proof (case m_pc st of None \<Rightarrow> [] | Some recs \<Rightarrow> recs)"

text \<open>
  The pass allocates a model converter and a proof converter of its own when the host
  passes one (\<open>if (mc) hsmc = alloc(...)\<close>).
\<close>

definition start_state :: "'h converter option \<Rightarrow> 'h converter option \<Rightarrow> inliner" where
  "start_state mc pc =
     init_inliner\<lparr>m_mc := (if mc = None then None else Some []),
                   m_pc := (if pc = None then None else Some [])\<rparr>"

text \<open>
  \<open>operator()\<close>: the result is the new rule set, or \<open>None\<close> for the null pointer,
  with the converters of the host as the call leaves them.
\<close>

definition run ::
  "'s env \<Rightarrow> rule list \<Rightarrow> 'h converter option \<Rightarrow> 'h converter option \<Rightarrow>
   (rule list option \<times> 'h converter option \<times> 'h converter option) option" where
  "run env source mc pc =
     (if length source = 0 then Some (None, mc, pc)
      else
        case run_stages env (start_state mc pc) source of
          None \<Rightarrow> None
        | Some (st, res, bulk_done, eager_done, linear_done) \<Rightarrow>
            if \<not> (bulk_done \<or> eager_done \<or> linear_done) then Some (None, mc, pc)
            else Some (Some res,
                       (case mc of None \<Rightarrow> None | Some c \<Rightarrow> Some (Concat c (own_mc st))),
                       (case pc of None \<Rightarrow> None | Some c \<Rightarrow> Some (Concat c (own_pc st)))))"

section \<open>A reference instance of the collaborators\<close>

text \<open>
  Modelled from the spec: the substitution primitive (most general unifier of two terms
  in disjoint variable offsets, failing on an occurs-check or a symbol mismatch). A
  variable \<open>v\<close> at offset \<open>o\<close> is the variable \<open>2 * v + o\<close> while unifying; a
  substitution is a list of bindings of such variables, each right-hand side fully
  substituted. The search is bounded by a fuel.
\<close>

fun enc :: "nat \<Rightarrow> expr \<Rightarrow> expr" where
  "enc off (Var v) = Var (2 * v + off)"
| "enc off (App f es) = App f (map (enc off) es)"
| "enc off (Quantifier e) = Quantifier (enc off e)"

fun dec :: "nat \<Rightarrow> expr \<Rightarrow> expr" where
  "dec d (Var v) = Var (v div 2 + (if v mod 2 = 1 then d else 0))"
| "dec d (App f es) = App f (map (dec d) es)"
| "dec d (Quantifier e) = Quantifier (dec d e)"

fun subst1 :: "nat \<Rightarrow> expr \<Rightarrow> expr \<Rightarrow> expr" where
  "subst1 x t (Var y) = (if x = y then t else Var y)"
| "subst1 x t (App f es) = App f (map (subst1 x t) es)"
| "subst1 x t (Quantifier e) = Quantifier (subst1 x t e)"

fun expr_vars :: "expr \<Rightarrow> nat list" where
  "expr_vars (Var v) = [v]"
| "expr_vars (App f es) = concat (map expr_vars es)"
| "expr_vars (Quantifier e) = expr_vars e"

definition bind_var ::
  "nat \<Rightarrow> expr \<Rightarrow> (expr \<times> expr) list \<Rightarrow> (nat \<times> expr) list \<Rightarrow>
   (expr \<times> expr) list \<times> (nat \<times> expr) list" where
  "bind_var x t ps s =
     (map (\<lambda>p. (subst1 x t (fst p), subst1 x t (snd p))) ps,
      (x, t) # map (\<lambda>b. (fst b, subst1 x t (snd b))) s)"

fun unify_fuel ::
  "nat \<Rightarrow> (expr \<times> expr) list \<Rightarrow> (nat \<times> expr) list \<Rightarrow> (nat \<times> expr) list option" where
  "unify_fuel 0 ps s = None"
| "unify_fuel (Suc n) [] s = Some s"
| "unify_fuel (Suc n) ((a, Var y) # ps) s =
     (if a = Var y then unify_fuel n ps s
      else if y \<in> set (expr_vars a) then None
      else case bind_var y a ps s of (ps', s') \<Rightarrow> unify_fuel n ps' s')"
| "unify_fuel (Suc n) ((Var x, b) # ps) s =
     (if x \<in> set (expr_vars b) then None
      else case bind_var x b ps s of (ps', s') \<Rightarrow> unify_fuel n ps' s')"
| "unify_fuel (Suc n) ((App f es, App g ds) # ps) s =
     (if f = g \<and> length es = length ds then unify_fuel n (zip es ds @ ps) s else None)"
| "unify_fuel (Suc n) ((a, b) # ps) s = (if a = b then unify_fuel n ps s else None)"

fun apply_bindings :: "(nat \<times> expr) list \<Rightarrow> expr \<Rightarrow> expr" where
  "apply_bindings s (Var v) = (case map_of s v of None \<Rightarrow> Var v | Some t \<Rightarrow> t)"
| "apply_bindings s (App f es) = App f (map (apply_bindings s) es)"
| "apply_bindings s (Quantifier e) = Quantifier (apply_bindings s e)"

definition ref_unif :: "app \<Rightarrow> app \<Rightarrow> (nat \<times> expr) list option" where
  "ref_unif a b =
     unify_fuel 1000 [(enc 0 (App (fst a) (snd a)), enc 1 (App (fst b) (snd b)))] []"

definition ref_subst_apply :: "(nat \<times> expr) list \<Rightarrow> nat \<Rightarrow> nat \<Rightarrow> expr \<Rightarrow> expr" where
  "ref_subst_apply s delta off e = dec delta (apply_bindings s (enc off e))"

text \<open>
  Modelled from the spec: the rule manager (construct a rule from head, tail and
  polarities; variables dense from index 0 after normalisation; the maximal variable of a
  rule). \<open>preds\<close> is the set of registered uninterpreted predicates.
\<close>

definition rule_vars :: "rule \<Rightarrow> nat list" where
  "rule_vars r =
     concat (map (\<lambda>a. concat (map expr_vars (snd a)))
       (r_head r # r_pos r @ r_neg r @ r_interp r))"

definition ref_get_max_var :: "rule \<Rightarrow> nat" where
  "ref_get_max_var r = foldl max 0 (rule_vars r)"

definition ref_get_vars :: "rule \<Rightarrow> nat" where
  "ref_get_vars r = (if rule_vars r = [] then 0 else Suc (ref_get_max_var r))"

fun rename :: "(nat \<Rightarrow> nat) \<Rightarrow> expr \<Rightarrow> expr" where
  "rename f (Var v) = Var (f v)"
| "rename f (App g es) = App g (map (rename f) es)"
| "rename f (Quantifier e) = Quantifier (rename f e)"

definition rename_app :: "(nat \<Rightarrow> nat) \<Rightarrow> app \<Rightarrow> app" where
  "rename_app f a = (fst a, map (rename f) (snd a))"

definition ref_norm_vars :: "rule \<Rightarrow> rule" where
  "ref_norm_vars r =
     (let used = remdups (rule_vars r);
          f = (\<lambda>v. length (filter (\<lambda>x. x < v) used))
      in \<lparr> r_head = rename_app f (r_head r), r_pos = map (rename_app f) (r_pos r),
           r_neg = map (rename_app f) (r_neg r), r_interp = map (rename_app f) (r_interp r) \<rparr>)"

definition ref_mk :: "func_decl set \<Rightarrow> app \<Rightarrow> (app \<times> bool) list \<Rightarrow> rule" where
  "ref_mk preds h tail =
     \<lparr> r_head = h,
       r_pos = map fst (filter (\<lambda>t. fst (fst t) \<in> preds \<and> \<not> snd t) tail),
       r_neg = map fst (filter (\<lambda>t. fst (fst t) \<in> preds \<and> snd t) tail),
       r_interp = map fst (filter (\<lambda>t. fst (fst t) \<notin> preds) tail) \<rparr>"

text \<open>
  Modelled from the spec: de-duplication of tail atoms by structural equality of atom
  plus polarity, preserving the first occurrence.
\<close>

fun ref_remove_duplicate_tails :: "(app \<times> bool) list \<Rightarrow> (app \<times> bool) list" where
  "ref_remove_duplicate_tails [] = []"
| "ref_remove_duplicate_tails (t # ts) =
     t # filter (\<lambda>u. u \<noteq> t) (ref_remove_duplicate_tails ts)"

text \<open>
  Modelled from the spec: the stratifier (the strongly connected components of the
  dependency graph in topological order, and the stratum index of a predicate). The
  components of the whole program are given as a table; a rule set gets the components
  of the predicates that occur in it. A predicate in no stratum has stratum 0.
\<close>

definition occurring :: "rule list \<Rightarrow> func_decl list" where
  "occurring rs = concat (map (\<lambda>r. head_decl r # map fst (r_pos r @ r_neg r)) rs)"

definition restrict_stratum :: "func_decl list \<Rightarrow> item_set \<Rightarrow> item_set list" where
  "restrict_stratum occ c =
     (case filter (\<lambda>p. p \<in> set occ) (fst c # snd c) of [] \<Rightarrow> [] | p # ps \<Rightarrow> [(p, ps)])"

fun stratum_index :: "item_set list \<Rightarrow> func_decl \<Rightarrow> nat \<Rightarrow> nat" where
  "stratum_index [] p n = 0"
| "stratum_index (c # cs) p n =
     (if p = fst c \<or> p \<in> set (snd c) then n else stratum_index cs p (Suc n))"

definition ref_stratify :: "item_set list \<Rightarrow> rule list \<Rightarrow> rule_stratifier" where
  "ref_stratify table rs =
     (let comps = concat (map (restrict_stratum (occurring rs)) table)
      in \<lparr> get_strats = comps, get_predicate_strat = (\<lambda>p. stratum_index comps p 0) \<rparr>)"

text \<open>
  The reference environment: output predicates, predicates with facts, registered
  predicates, the table of strata, the interpreted simplifier and the flag
  \<open>:inline-linear-branch\<close>. \<open>:inline-linear\<close> has its default (true), unbound
  variables are not fixed.
\<close>

definition ref_env ::
  "func_decl set \<Rightarrow> func_decl set \<Rightarrow> func_decl set \<Rightarrow> item_set list \<Rightarrow>
   (rule \<Rightarrow> rule option) \<Rightarrow> bool \<Rightarrow> (nat \<times> expr) list env" where
  "ref_env outs facts preds table simplifier branch =
     \<lparr> is_output_predicate = (\<lambda>p. p \<in> outs),
       collect_non_empty_predicates = facts,
       fix_unbound_vars = False,
       inline_linear_param = True,
       inline_linear_branch = branch,
       get_max_var = ref_get_max_var,
       get_vars = ref_get_vars,
       m_unif = ref_unif,
       subst_apply = ref_subst_apply,
       remove_duplicate_tails = ref_remove_duplicate_tails,
       rm_mk = ref_mk preds,
       norm_vars = ref_norm_vars,
       rm_fix_unbound_vars = (\<lambda>r. r),
       interp_simplifier = simplifier,
       stratify = ref_stratify table,
       st_unify = (\<lambda>q e. ref_unif q e \<noteq> None) \<rparr>"

subsection \<open>Example programs\<close>

definition pred :: "nat \<Rightarrow> func_decl" where
  "pred n = \<lparr> get_id = n, get_arity = 1 \<rparr>"

text \<open>The atom \<open>p(x\<^sub>0)\<close> and the rule \<open>h(x\<^sub>0) :- pos, not neg, interp\<close>.\<close>

definition atom :: "nat \<Rightarrow> app" where
  "atom n = (pred n, [Var 0])"

definition mk_rule :: "nat \<Rightarrow> nat list \<Rightarrow> nat list \<Rightarrow> app list \<Rightarrow> rule" where
  "mk_rule h ps ns cs =
     \<lparr> r_head = atom h, r_pos = map atom ps, r_neg = map atom ns, r_interp = cs \<rparr>"

section \<open>Notions the statements use\<close>

text \<open>
  A stratifier orders the strata so that no positive tail predicate of a rule lies above
  the head of the rule; \<open>is_oriented_rewriter\<close> asserts it
  (\<open>SASSERT(pred_strat<=head_strat)\<close>).
\<close>

definition stratified_rule :: "rule_stratifier \<Rightarrow> rule \<Rightarrow> bool" where
  "stratified_rule strat r =
     (\<forall>a \<in> set (r_pos r).
        get_predicate_strat strat (fst a) \<le> get_predicate_strat strat (head_decl r))"

text \<open>
  The ordering of the specification: \<open>q\<close> is in a strictly lower stratum than \<open>h\<close>,
  or in the same stratum with a smaller arity, or in the same stratum with the same arity
  and a smaller id.
\<close>

definition spec_lex_lower :: "rule_stratifier \<Rightarrow> func_decl \<Rightarrow> func_decl \<Rightarrow> bool" where
  "spec_lex_lower strat q h =
     (get_predicate_strat strat q < get_predicate_strat strat h \<or>
      (get_predicate_strat strat q = get_predicate_strat strat h \<and> get_arity q < get_arity h) \<or>
      (get_predicate_strat strat q = get_predicate_strat strat h \<and> get_arity q = get_arity h \<and>
       get_id q < get_id h))"

text \<open>The example program \<open>A(x) :- P(x). B(x) :- not P(x). P(x) :- Q(x).\<close> with
  outputs \<open>A\<close> (1) and \<open>B\<close> (4), facts for \<open>Q\<close> (3), and \<open>P\<close> (2).\<close>

definition env_neg :: "(nat \<times> expr) list env" where
  "env_neg =
     ref_env {pred 1, pred 4} {pred 3} {pred 1, pred 2, pred 3, pred 4}
       [(pred 3, []), (pred 2, []), (pred 1, []), (pred 4, [])] Some False"

definition prog_neg :: "rule list" where
  "prog_neg = [mk_rule 1 [2] [] [], mk_rule 4 [] [2] [], mk_rule 2 [3] [] []]"

text \<open>The example program \<open>Out(x) :- P(x).\<close> with the output \<open>Out\<close> (1); \<open>P\<close> (2)
  has no rule and no fact.\<close>

definition env_dead :: "(nat \<times> expr) list env" where
  "env_dead = ref_env {pred 1} {} {pred 1, pred 2} [(pred 2, []), (pred 1, [])] Some False"

definition prog_dead :: "rule list" where
  "prog_dead = [mk_rule 1 [2] [] []]"



definition quant_atom :: app where
  "quant_atom = (\<lparr> get_id = 200, get_arity = 1 \<rparr>, [Quantifier (Var 0)])"

text \<open>The example program \<open>A(x) :- P(a). P(b) :- Q(x). P(c) :- Q(x).\<close> and the
  example program \<open>A(x) :- P(x). P(x) :- Q(x), \<phi>.\<close> where \<open>\<phi>\<close> has a quantifier;
  \<open>A\<close> (1) is the output and \<open>Q\<close> (3) has facts.\<close>

definition env_facts :: "(nat \<times> expr) list env" where
  "env_facts =
     ref_env {pred 1} {pred 3} {pred 1, pred 2, pred 3}
       [(pred 3, []), (pred 2, []), (pred 1, [])] Some False"




text \<open>The example program \<open>A(x) :- P(x). P(x) :- Q(x).\<close>\<close>

definition prog_chain :: "rule list" where
  "prog_chain = [mk_rule 1 [2] [] [], mk_rule 2 [3] [] []]"

text \<open>The example program \<open>Out(x) :- Q(x), \<phi>. A(x) :- P(x). P(x) :- Q(x).\<close> where
  \<open>\<phi>\<close> has a quantifier; \<open>Out\<close> (5) and \<open>A\<close> (1) are outputs and \<open>Q\<close> (3) has
  facts.\<close>

definition env_quant :: "(nat \<times> expr) list env" where
  "env_quant =
     ref_env {pred 1, pred 5} {pred 3} {pred 1, pred 2, pred 3, pred 5}
       [(pred 3, []), (pred 2, []), (pred 1, []), (pred 5, [])] Some False"

definition prog_quant :: "rule list" where
  "prog_quant = [mk_rule 5 [3] [] [quant_atom], mk_rule 1 [2] [] [], mk_rule 2 [3] [] []]"

text \<open>
  Two states of the pass with the same plan: the sets and counters \<open>inlining_allowed\<close>
  reads are the same. The source rules of the resolution records the proof converter of
  the pass holds.
\<close>

definition same_plan :: "inliner \<Rightarrow> inliner \<Rightarrow> bool" where
  "same_plan st st' =
     (m_preds_with_facts st' = m_preds_with_facts st \<and>
      m_preds_with_neg_occurrence st' = m_preds_with_neg_occurrence st \<and>
      m_forbidden_preds st' = m_forbidden_preds st \<and>
      m_head_pred_ctr st' = m_head_pred_ctr st \<and>
      m_tail_pred_ctr st' = m_tail_pred_ctr st)"

definition pc_sources :: "inliner \<Rightarrow> rule list" where
  "pc_sources st = (case m_pc st of None \<Rightarrow> [] | Some recs \<Rightarrow> map (\<lambda>rec. fst (snd rec)) recs)"

text \<open>
  Two states of the pass that differ in the plan only: the converters, the inlined rules,
  the predicates with facts and the negated predicates are the same.
\<close>

definition same_log :: "inliner \<Rightarrow> inliner \<Rightarrow> bool" where
  "same_log st st' =
     (m_pc st' = m_pc st \<and> m_mc st' = m_mc st \<and> m_inlined_rules st' = m_inlined_rules st \<and>
      m_preds_with_facts st' = m_preds_with_facts st \<and>
      m_preds_with_neg_occurrence st' = m_preds_with_neg_occurrence st)"

text \<open>The example program \<open>A(x) :- P(x), R(x). B(x) :- not P(x). P(x) :- Q(x).
  R(x) :- Q(x).\<close> with outputs \<open>A\<close> (1) and \<open>B\<close> (4), facts for \<open>Q\<close> (3), and
  \<open>P\<close> (2), \<open>R\<close> (6).\<close>

definition env_neg2 :: "(nat \<times> expr) list env" where
  "env_neg2 =
     ref_env {pred 1, pred 4} {pred 3} {pred 1, pred 2, pred 3, pred 4, pred 6}
       [(pred 3, []), (pred 2, []), (pred 6, []), (pred 1, []), (pred 4, [])] Some False"

definition prog_neg2 :: "rule list" where
  "prog_neg2 = [mk_rule 1 [2, 6] [] [], mk_rule 4 [] [2] [], mk_rule 2 [3] [] [], mk_rule 6 [3] [] []]"

text \<open>
  What holds of the state of the linear inliner at every round, for \<open>sz\<close> rules and a set
  \<open>K\<close> of positions: the vectors have \<open>sz\<close> entries, the head index holds positions
  below \<open>sz\<close> only, and a position of \<open>K\<close> is valid and not removable.
\<close>

definition linear_inv :: "nat \<Rightarrow> nat set \<Rightarrow> linear \<Rightarrow> bool" where
  "linear_inv sz K ls =
     (length (acc ls) = sz \<and> length (valid ls) = sz \<and> length (can_remove ls) = sz \<and>
      (\<forall>kv \<in> set (head_positions ls). \<forall>p \<in> set (snd kv). p < sz) \<and>
      (\<forall>i \<in> K. i < sz \<and> \<not> can_remove ls ! i \<and> valid ls ! i))"

text \<open>
  The condition under which a round of \<open>inline_linear\<close> breaks before it calls
  \<open>try_to_inline_rule\<close>, and the state after the indices are updated for the resolvent.
\<close>

definition linear_break :: "'s env \<Rightarrow> linear \<Rightarrow> nat \<Rightarrow> bool" where
  "linear_break env ls i =
     (let j = index_unify env (head_positions ls) (get_tail (acc ls ! i) 0) ! 0
      in \<not> valid ls ! i \<or> \<not> can_expand ls ! i \<or>
         length (index_unify env (head_positions ls) (get_tail (acc ls ! i) 0)) \<noteq> 1 \<or>
         \<not> can_remove ls ! j \<or> \<not> valid ls ! j \<or> i = j \<or>
         (\<not> inline_linear_branch env \<and>
          length (index_unify env (tail_positions ls) (get_head (acc ls ! j))) \<noteq> 1))"

definition linear_inlined :: "'s env \<Rightarrow> inliner \<Rightarrow> linear \<Rightarrow> nat \<Rightarrow> rule \<Rightarrow> rule \<Rightarrow> linear" where
  "linear_inlined env st' ls i r' rl_res =
     (let j = index_unify env (head_positions ls) (get_tail (acc ls ! i) 0) ! 0;
          ls2 = add_rule env st' (del_rule ls r' i) rl_res i;
          ls3 = ls2\<lparr>acc := (acc ls2)[i := rl_res]\<rparr>
      in ls3\<lparr>can_expand := (can_expand ls3)[i := can_expand ls3 ! j]\<rparr>)"

text \<open>
  The resolvent \<open>try_to_inline_rule\<close> computes for a target, a source and a tail index;
  it does not depend on the state of the pass.
\<close>

definition resolvent :: "'s env \<Rightarrow> rule \<Rightarrow> rule \<Rightarrow> nat \<Rightarrow> rule option" where
  "resolvent env tgt src i = fst (snd (try_to_inline_rule env init_inliner tgt src i))"

text \<open>The example program \<open>A(x) :- B(x). B(x) :- B(x). D(x) :- E(x), not B(x).\<close> with
  outputs \<open>A\<close> (1) and \<open>D\<close> (4), facts for \<open>E\<close> (5), and \<open>B\<close> (2), under
  \<open>:inline-linear-branch\<close>. The state of the pass after counting, and the state of the
  linear inliner after its first round at position 0.\<close>

definition env_loop :: "(nat \<times> expr) list env" where
  "env_loop =
     ref_env {pred 1, pred 4} {pred 5} {pred 1, pred 2, pred 4, pred 5}
       [(pred 5, []), (pred 2, []), (pred 1, []), (pred 4, [])] Some True"

definition prog_loop :: "rule list" where
  "prog_loop = [mk_rule 1 [2] [] [], mk_rule 2 [2] [] [], mk_rule 4 [5] [2] []]"

definition st_loop :: inliner where
  "st_loop = init_inliner\<lparr>m_preds_with_facts := {pred 5}\<rparr>"

definition ls_loop :: linear where
  "ls_loop = snd (snd (linear_step env_loop st_loop (linear_init env_loop st_loop prog_loop) 0))"

text \<open>
  The number of positive tail atoms of a rule whose predicate is admissible for inlining,
  and the property of the inlined rule set the worklist of \<open>transform_rule\<close> relies on:
  no rule of \<open>m_inlined_rules\<close> has such an atom.
\<close>

definition admissible_tails :: "'s env \<Rightarrow> inliner \<Rightarrow> rule \<Rightarrow> nat" where
  "admissible_tails env st r = length (filter (\<lambda>a. inlining_allowed env st (fst a)) (r_pos r))"

definition inlined_resolved :: "'s env \<Rightarrow> rule set \<Rightarrow> inliner \<Rightarrow> bool" where
  "inlined_resolved env W st =
     (\<forall>s \<in> set (m_inlined_rules st). s \<in> W \<and> admissible_tails env st s = 0)"

text \<open>
  What the pass expects of its collaborators, for a set \<open>W\<close> of rules. Renaming the
  variables of a rule keeps its positive tail predicates, and the positive tail predicates
  of a resolvent are among those of the target without the resolved atom and those of the
  source. A stratum with several predicates starts with the head predicate of a rule of
  the stratified rule set. The stratum of a positive tail predicate is not above the
  stratum of the head.
\<close>

definition resolution_contract :: "'s env \<Rightarrow> rule set \<Rightarrow> bool" where
  "resolution_contract env W =
     ((\<forall>r \<in> W. norm_vars env r \<in> W \<and> map fst (r_pos (norm_vars env r)) = map fst (r_pos r)) \<and>
      (\<forall>tgt \<in> W. \<forall>src \<in> W. \<forall>i res.
         i < length (r_pos tgt) \<longrightarrow> resolvent env tgt src i = Some res \<longrightarrow>
         res \<in> W \<and>
         mset (map fst (r_pos res)) \<subseteq>#
           (mset (map fst (r_pos tgt)) - {#fst (r_pos tgt ! i)#}) + mset (map fst (r_pos src))))"

definition cycle_contract :: "'s env \<Rightarrow> rule list \<Rightarrow> bool" where
  "cycle_contract env orig =
     (\<forall>rs \<in> set (subseqs orig). \<forall>c \<in> set (get_strats (stratify env rs)).
        stratum_size c \<noteq> 1 \<longrightarrow> fst c \<in> head_decl ` set rs)"

definition stratifier_contract :: "'s env \<Rightarrow> rule set \<Rightarrow> bool" where
  "stratifier_contract env W =
     (\<forall>rs. set rs \<subseteq> W \<longrightarrow> (\<forall>r \<in> set rs. stratified_rule (stratify env rs) r))"

text \<open>The rules of \<open>A(x) :- P(x). P(x) :- Q(x).\<close> with their resolvent
  \<open>A(x) :- Q(x)\<close>.\<close>

definition closure_chain :: "rule list" where
  "closure_chain = [mk_rule 1 [2] [] [], mk_rule 2 [3] [] [], mk_rule 1 [3] [] []]"

text \<open>The example program \<open>P1(x) :- P2(x), P3(x). P2(x) :- Q5(x). P2(x) :- Q6(x).
  P3(x) :- Q5(x). P3(x) :- Q6(x). P8(x) :- P9(x). P9(x) :- Q5(x). P9(x) :- Q6(x).
  Out(x) :- P1(x), P8(x), P8(x).\<close> with the output \<open>Out\<close> (7) and facts for \<open>Q5\<close>
  and \<open>Q6\<close>; the state of the pass after counting and the proposed inlined rules.\<close>

definition env_mult :: "(nat \<times> expr) list env" where
  "env_mult =
     ref_env {pred 7} {pred 5, pred 6}
       {pred 1, pred 2, pred 3, pred 5, pred 6, pred 7, pred 8, pred 9}
       [(pred 5, []), (pred 6, []), (pred 2, []), (pred 3, []), (pred 9, []), (pred 8, []),
        (pred 1, []), (pred 7, [])]
       Some False"

definition prog_mult :: "rule list" where
  "prog_mult =
     [mk_rule 1 [2, 3] [] [], mk_rule 2 [5] [] [], mk_rule 2 [6] [] [],
      mk_rule 3 [5] [] [], mk_rule 3 [6] [] [],
      mk_rule 8 [9] [] [], mk_rule 9 [5] [] [], mk_rule 9 [6] [] [],
      mk_rule 7 [1, 8, 8] [] []]"

definition st_mult :: inliner where
  "st_mult = count_pred_occurrences env_mult init_inliner prog_mult"

definition prop_mult :: rule_set where
  "prop_mult = create_allowed_rule_set env_mult st_mult prog_mult"

text \<open>
  What the linear inliner makes of a rule of the rule list it is given: the rule itself,
  a rule it made with its variables renamed (\<open>try_to_inline_rule\<close> renames its target
  in place), or the resolvent at tail index 0 of a rule it made with a rule it made of
  another rule of the list.
\<close>

inductive linear_expansion :: "'s env \<Rightarrow> rule list \<Rightarrow> rule \<Rightarrow> rule \<Rightarrow> bool"
  for env :: "'s env" and rules :: "rule list" where
  same: "linear_expansion env rules r r"
| renamed: "linear_expansion env rules r r' \<Longrightarrow> linear_expansion env rules r (norm_vars env r')"
| resolved:
    "linear_expansion env rules r r' \<Longrightarrow> src0 \<in> set rules \<Longrightarrow>
     linear_expansion env rules src0 src \<Longrightarrow> resolvent env r' src 0 = Some res \<Longrightarrow>
     linear_expansion env rules r res"




section \<open>The admissibility oracle\<close>

text \<open>
  C4. \<open>inlining_allowed(p)\<close> is true exactly when the four hard conditions hold (\<open>p\<close>
  is not an output predicate, has no facts, has no negative occurrence, is not forbidden)
  and one of the soft conditions holds (\<open>head_count[p] \<le> 1\<close>, or
  \<open>tail_count[p] \<le> 1\<close> and \<open>head_count[p] \<le> 4\<close>).
\<close>

theorem inlining_allowed_iff:
  "inlining_allowed env st p \<longleftrightarrow>
     (\<not> is_output_predicate env p \<and> p \<notin> m_preds_with_facts st \<and>
      p \<notin> m_preds_with_neg_occurrence st \<and> p \<notin> m_forbidden_preds st) \<and>
     (m_head_pred_ctr st p \<le> 1 \<or>
      (m_tail_pred_ctr st p \<le> 1 \<and> m_head_pred_ctr st p \<le> 4))"
  by (auto simp add: inlining_allowed_def)

theorem inlining_allowed_iff_witness:
  "inlining_allowed (ref_env {pred 1} {} {pred 1, pred 2} [] Some False) init_inliner (pred 2) \<and>
   \<not> inlining_allowed (ref_env {pred 1} {} {pred 1, pred 2} [] Some False) init_inliner (pred 1)"
  using inlining_allowed_iff [of "ref_env {pred 1} {} {pred 1, pred 2} [] Some False" init_inliner "pred 2"]
    inlining_allowed_iff [of "ref_env {pred 1} {} {pred 1, pred 2} [] Some False" init_inliner "pred 1"]
  by (simp add: ref_env_def init_inliner_def pred_def)

section \<open>The multiplier guard\<close>

lemma mm_tail_loop_append:
  "mm_tail_loop env p imo s (as1 @ as2) =
     (case mm_tail_loop env p imo s as1 of
        (s', True) \<Rightarrow> (s', True)
      | (s', False) \<Rightarrow> mm_tail_loop env p imo s' as2)"
proof (induction as1 arbitrary: s)
  case Nil
  then show ?case by simp
next
  case (Cons a as1)
  obtain s' j where t: "mm_tail_step env p imo s (fst a) = (s', j)"
    by (cases "mm_tail_step env p imo s (fst a)") auto
  with Cons show ?case by (cases j) simp_all
qed

lemma mm_rule_loop_append:
  "mm_rule_loop env p imo s (rs1 @ rs2) =
     (case mm_rule_loop env p imo s rs1 of
        (s', True) \<Rightarrow> (s', True)
      | (s', False) \<Rightarrow> mm_rule_loop env p imo s' rs2)"
proof (induction rs1 arbitrary: s)
  case Nil
  then show ?case by simp
next
  case (Cons r rs1)
  obtain s' j where t: "mm_tail_loop env p imo s (r_pos r) = (s', j)"
    by (cases "mm_tail_loop env p imo s (r_pos r)") auto
  with Cons show ?case by (cases j) simp_all
qed

lemma mm_tail_step_tail_ctr:
  "m_tail_pred_ctr (fst (fst (mm_tail_step env p imo s q))) = m_tail_pred_ctr (fst s)"
  by (cases s) (simp add: mm_tail_step_def Let_def)

lemma mm_tail_loop_tail_ctr:
  "m_tail_pred_ctr (fst (fst (mm_tail_loop env p imo s as))) = m_tail_pred_ctr (fst s)"
proof (induction as arbitrary: s)
  case Nil
  then show ?case by simp
next
  case (Cons a as)
  obtain s' j where t: "mm_tail_step env p imo s (fst a) = (s', j)"
    by (cases "mm_tail_step env p imo s (fst a)") auto
  from mm_tail_step_tail_ctr [of env p imo s "fst a"] t
  have "m_tail_pred_ctr (fst s') = m_tail_pred_ctr (fst s)" by simp
  with Cons [of s'] t show ?case by (cases j) simp_all
qed

lemma mm_rule_loop_tail_ctr:
  "m_tail_pred_ctr (fst (fst (mm_rule_loop env p imo s rs))) = m_tail_pred_ctr (fst s)"
proof (induction rs arbitrary: s)
  case Nil
  then show ?case by simp
next
  case (Cons r rs)
  obtain s' j where t: "mm_tail_loop env p imo s (r_pos r) = (s', j)"
    by (cases "mm_tail_loop env p imo s (r_pos r)") auto
  from mm_tail_loop_tail_ctr [of env p imo s "r_pos r"] t
  have "m_tail_pred_ctr (fst s') = m_tail_pred_ctr (fst s)" by simp
  with Cons [of s'] t show ?case by (cases j) simp_all
qed

text \<open>
  C6. The first loop of \<open>forbid_multiple_multipliers\<close> works on the first predicate
  \<open>p\<close> of a stratum of the proposed inlined rules, marked multi-head when
  \<open>head_count[p] > 1\<close>, and walks the positive tail atoms of the rules of \<open>p\<close>. When
  the walk, not having left \<open>p\<close> before, meets an atom whose predicate \<open>q\<close> is
  admissible with \<open>head_count[q] > 1\<close>: if \<open>p\<close> is marked multi-head by then, \<open>p\<close>
  is forbidden and the guard goes to the next stratum; otherwise, if \<open>tail_count[p] > 1\<close>,
  \<open>q\<close> is forbidden and the walk goes on; otherwise \<open>p\<close> is marked multi-head and
  \<open>head_count[p]\<close> becomes \<open>head_count[p] * head_count[q]\<close> in the counter itself,
  so that the rest of the walk, the later strata and the second loop read the updated
  counter.
\<close>

theorem multiplier_guard_step:
  assumes strata: "get_strats (get_stratifier proposed) = cs1 @ stratum # cs2"
    and before: "foldl (mm_stratum env proposed) (st0, False) cs1 = (stp, sfp)"
    and rules: "get_predicate_rules (rs_rules proposed) (fst stratum) = rs1 @ r # rs2"
    and tail: "r_pos r = as1 @ a # as2"
    and scan_rules: "mm_rule_loop env (fst stratum) (m_tail_pred_ctr stp (fst stratum) > 1)
                       (stp, m_head_pred_ctr stp (fst stratum) > 1, sfp) rs1 = (s1, False)"
    and scan_tail: "mm_tail_loop env (fst stratum) (m_tail_pred_ctr stp (fst stratum) > 1) s1 as1 =
                      ((st, multi_head, sf), False)"
    and adm: "inlining_allowed env st (fst a)"
    and cnt: "m_head_pred_ctr st (fst a) > 1"
  shows "forbid_multiple_multipliers env st0 orig proposed =
           foldl (mm_orig_rule env)
             (foldl (mm_stratum env proposed)
                (if multi_head
                 then (st\<lparr>m_forbidden_preds := insert (fst stratum) (m_forbidden_preds st)\<rparr>, True)
                 else
                   let multi_occurrence = (m_tail_pred_ctr st (fst stratum) > 1);
                       s = (if multi_occurrence
                            then (st\<lparr>m_forbidden_preds := insert (fst a) (m_forbidden_preds st)\<rparr>,
                                  False, True)
                            else (st\<lparr>m_head_pred_ctr := (m_head_pred_ctr st)
                                       (fst stratum :=
                                          m_head_pred_ctr st (fst stratum) * m_head_pred_ctr st (fst a))\<rparr>,
                                  True, sf))
                   in case mm_tail_loop env (fst stratum) multi_occurrence s as2 of
                        (s', True) \<Rightarrow> (fst s', snd (snd s'))
                      | (s', False) \<Rightarrow>
                          (case mm_rule_loop env (fst stratum) multi_occurrence s' rs2 of
                             (s'', jumped) \<Rightarrow> (fst s'', snd (snd s''))))
                cs2)
             orig"
proof -
  let ?p = "fst stratum"
  define imo where "imo = (m_tail_pred_ctr stp ?p > 1)"
  define imh where "imh = (m_head_pred_ctr stp ?p > 1)"
  have scan1: "mm_rule_loop env ?p imo (stp, imh, sfp) rs1 = (s1, False)"
    using scan_rules by (simp add: imo_def imh_def)
  have scan2: "mm_tail_loop env ?p imo s1 as1 = ((st, multi_head, sf), False)"
    using scan_tail by (simp add: imo_def)
  have "m_tail_pred_ctr (fst s1) = m_tail_pred_ctr stp"
    using mm_rule_loop_tail_ctr [of env ?p imo "(stp, imh, sfp)" rs1] scan1 by simp
  moreover have "m_tail_pred_ctr st = m_tail_pred_ctr (fst s1)"
    using mm_tail_loop_tail_ctr [of env ?p imo s1 as1] scan2 by simp
  ultimately have occ: "(m_tail_pred_ctr st ?p > 1) = imo" by (simp add: imo_def)
  define s where "s =
           (if imo
            then (st\<lparr>m_forbidden_preds := insert (fst a) (m_forbidden_preds st)\<rparr>, False, True)
            else (st\<lparr>m_head_pred_ctr := (m_head_pred_ctr st)
                       (?p := m_head_pred_ctr st ?p * m_head_pred_ctr st (fst a))\<rparr>, True, sf))"
  have step: "mm_tail_step env ?p imo (st, multi_head, sf) (fst a) =
      (if multi_head
       then ((st\<lparr>m_forbidden_preds := insert ?p (m_forbidden_preds st)\<rparr>, True, True), True)
       else (s, False))"
    using adm cnt by (simp add: mm_tail_step_def Let_def s_def)
  have stratum: "mm_stratum env proposed (stp, sfp) stratum =
      (case mm_rule_loop env ?p imo (stp, imh, sfp) (rs1 @ r # rs2) of
         (s'', jumped) \<Rightarrow> (fst s'', snd (snd s'')))"
    using rules by (simp add: mm_stratum_def Let_def imo_def imh_def split: prod.splits)
  have r1: "mm_rule_loop env ?p imo (stp, imh, sfp) (rs1 @ r # rs2) =
              mm_rule_loop env ?p imo s1 (r # rs2)"
    by (simp add: mm_rule_loop_append scan1)
  have r2: "mm_tail_loop env ?p imo s1 (r_pos r) =
              mm_tail_loop env ?p imo (st, multi_head, sf) (a # as2)"
    by (simp add: tail mm_tail_loop_append scan2)
  have guard: "mm_stratum env proposed (stp, sfp) stratum =
      (if multi_head
       then (st\<lparr>m_forbidden_preds := insert ?p (m_forbidden_preds st)\<rparr>, True)
       else
         case mm_tail_loop env ?p imo s as2 of
           (s', True) \<Rightarrow> (fst s', snd (snd s'))
         | (s', False) \<Rightarrow>
             (case mm_rule_loop env ?p imo s' rs2 of
                (s'', jumped) \<Rightarrow> (fst s'', snd (snd s''))))"
  proof (cases multi_head)
    case True
    with step have "mm_tail_loop env ?p imo (st, multi_head, sf) (a # as2) =
        ((st\<lparr>m_forbidden_preds := insert ?p (m_forbidden_preds st)\<rparr>, True, True), True)"
      by simp
    with r2 have "mm_rule_loop env ?p imo s1 (r # rs2) =
        ((st\<lparr>m_forbidden_preds := insert ?p (m_forbidden_preds st)\<rparr>, True, True), True)"
      by simp
    with True show ?thesis unfolding stratum r1 by simp
  next
    case False
    with step have "mm_tail_loop env ?p imo (st, multi_head, sf) (a # as2) =
                      mm_tail_loop env ?p imo s as2"
      by simp
    with r2 have "mm_rule_loop env ?p imo s1 (r # rs2) =
        (case mm_tail_loop env ?p imo s as2 of
           (s', True) \<Rightarrow> (s', True)
         | (s', False) \<Rightarrow> mm_rule_loop env ?p imo s' rs2)"
      by simp
    moreover obtain s' j where e: "mm_tail_loop env ?p imo s as2 = (s', j)"
      by (cases "mm_tail_loop env ?p imo s as2") auto
    ultimately have "(case mm_rule_loop env ?p imo s1 (r # rs2) of
                  (s'', jumped) \<Rightarrow> (fst s'', snd (snd s''))) =
        (case mm_tail_loop env ?p imo s as2 of
           (s', True) \<Rightarrow> (fst s', snd (snd s'))
         | (s', False) \<Rightarrow>
             (case mm_rule_loop env ?p imo s' rs2 of
                (s'', jumped) \<Rightarrow> (fst s'', snd (snd s''))))"
      by (cases j) (simp_all split: prod.splits)
    with False show ?thesis unfolding stratum r1 by simp
  qed
  have form: "mm_stratum env proposed (stp, sfp) stratum =
      (if multi_head
       then (st\<lparr>m_forbidden_preds := insert (fst stratum) (m_forbidden_preds st)\<rparr>, True)
       else
         let multi_occurrence = (m_tail_pred_ctr st (fst stratum) > 1);
             s = (if multi_occurrence
                  then (st\<lparr>m_forbidden_preds := insert (fst a) (m_forbidden_preds st)\<rparr>,
                        False, True)
                  else (st\<lparr>m_head_pred_ctr := (m_head_pred_ctr st)
                             (fst stratum :=
                                m_head_pred_ctr st (fst stratum) * m_head_pred_ctr st (fst a))\<rparr>,
                        True, sf))
         in case mm_tail_loop env (fst stratum) multi_occurrence s as2 of
              (s', True) \<Rightarrow> (fst s', snd (snd s'))
            | (s', False) \<Rightarrow>
                (case mm_rule_loop env (fst stratum) multi_occurrence s' rs2 of
                   (s'', jumped) \<Rightarrow> (fst s'', snd (snd s''))))"
    unfolding Let_def occ using guard by (simp only: s_def)
  have main: "forbid_multiple_multipliers env st0 orig proposed =
          foldl (mm_orig_rule env)
            (foldl (mm_stratum env proposed) (mm_stratum env proposed (stp, sfp) stratum) cs2) orig"
    using strata before by (simp add: forbid_multiple_multipliers_def)
  show ?thesis by (simp only: main form)
qed

theorem multiplier_guard_step_witness:
  "get_strats (get_stratifier prop_mult) =
     [(pred 5, []), (pred 6, []), (pred 2, []), (pred 3, []), (pred 9, []), (pred 8, []),
      (pred 1, [])] \<and>
   get_predicate_rules (rs_rules prop_mult) (pred 8) = [mk_rule 8 [9] [] []] \<and>
   get_predicate_rules (rs_rules prop_mult) (pred 1) = [mk_rule 1 [2, 3] [] []] \<and>
   inlining_allowed env_mult st_mult (pred 9) \<and> m_head_pred_ctr st_mult (pred 9) = 2 \<and>
   m_head_pred_ctr st_mult (pred 8) = 1 \<and> m_tail_pred_ctr st_mult (pred 8) = 2 \<and>
   inlining_allowed env_mult st_mult (pred 2) \<and> m_head_pred_ctr st_mult (pred 2) = 2 \<and>
   inlining_allowed env_mult st_mult (pred 3) \<and> m_head_pred_ctr st_mult (pred 3) = 2 \<and>
   m_head_pred_ctr st_mult (pred 1) = 1 \<and> m_tail_pred_ctr st_mult (pred 1) = 1 \<and>
   m_forbidden_preds (fst (forbid_multiple_multipliers env_mult st_mult prog_mult prop_mult)) =
     {pred 9, pred 1, pred 3} \<and>
   m_head_pred_ctr (fst (forbid_multiple_multipliers env_mult st_mult prog_mult prop_mult))
     (pred 1) = 2 \<and>
   snd (forbid_multiple_multipliers env_mult st_mult prog_mult prop_mult)"
proof -
  let ?env = env_mult
  let ?cs8 = "[(pred 5, []), (pred 6, []), (pred 2, []), (pred 3, []), (pred 9, [])]"
  let ?cs1 = "[(pred 5, []), (pred 6, []), (pred 2, []), (pred 3, []), (pred 9, []), (pred 8, [])]"
  let ?s8 = "foldl (mm_stratum ?env prop_mult) (st_mult, False) ?cs8"
  let ?s1 = "foldl (mm_stratum ?env prop_mult) (st_mult, False) ?cs1"
  let ?c1 = "(pred 1, []) :: item_set"
  let ?t = "mm_tail_loop ?env (fst ?c1) (m_tail_pred_ctr (fst ?s1) (fst ?c1) > 1)
              (fst ?s1, m_head_pred_ctr (fst ?s1) (fst ?c1) > 1, snd ?s1) [atom 2]"
  have strata8: "get_strats (get_stratifier prop_mult) = ?cs8 @ (pred 8, []) # [(pred 1, [])]"
    by code_simp
  have strata1: "get_strats (get_stratifier prop_mult) = ?cs1 @ (pred 1, []) # []"
    by code_simp
  have rules8: "get_predicate_rules (rs_rules prop_mult) (fst (pred 8, [])) =
                  [] @ mk_rule 8 [9] [] [] # []"
    by code_simp
  have rules1: "get_predicate_rules (rs_rules prop_mult) (fst (pred 1, [])) =
                  [] @ mk_rule 1 [2, 3] [] [] # []"
    by code_simp
  have tail8: "r_pos (mk_rule 8 [9] [] []) = [] @ atom 9 # []" by code_simp
  have tail2: "r_pos (mk_rule 1 [2, 3] [] []) = [] @ atom 2 # [atom 3]" by code_simp
  have tail3: "r_pos (mk_rule 1 [2, 3] [] []) = [atom 2] @ atom 3 # []" by code_simp
  have adm8: "inlining_allowed ?env (fst ?s8) (fst (atom 9))" by code_simp
  have cnt8: "m_head_pred_ctr (fst ?s8) (fst (atom 9)) > 1" by code_simp
  have adm2: "inlining_allowed ?env (fst ?s1) (fst (atom 2))" by code_simp
  have cnt2: "m_head_pred_ctr (fst ?s1) (fst (atom 2)) > 1" by code_simp
  have jump: "\<not> snd ?t" by code_simp
  have adm3: "inlining_allowed ?env (fst (fst ?t)) (fst (atom 3))" by code_simp
  have cnt3: "m_head_pred_ctr (fst (fst ?t)) (fst (atom 3)) > 1" by code_simp
  have scan3: "?t = ((fst (fst ?t), fst (snd (fst ?t)), snd (snd (fst ?t))), False)"
    using jump by (cases ?t) auto
  have b8: "foldl (mm_stratum ?env prop_mult) (st_mult, False) ?cs8 = (fst ?s8, snd ?s8)"
    by simp
  have b1: "foldl (mm_stratum ?env prop_mult) (st_mult, False) ?cs1 = (fst ?s1, snd ?s1)"
    by simp
  have r_nil: "mm_rule_loop e p imo s [] = (s, False)" for e :: "(nat \<times> expr) list env" and p imo s
    by simp
  have t_nil: "mm_tail_loop e p imo s [] = (s, False)" for e :: "(nat \<times> expr) list env" and p imo s
    by simp
  note occ = multiplier_guard_step [where env = ?env and proposed = prop_mult and orig = prog_mult
      and ?st0.0 = st_mult and ?cs1.0 = ?cs8 and stratum = "(pred 8, [])"
      and ?cs2.0 = "[(pred 1, [])]" and stp = "fst ?s8" and sfp = "snd ?s8"
      and ?rs1.0 = "[]" and r = "mk_rule 8 [9] [] []" and ?rs2.0 = "[]"
      and ?as1.0 = "[]" and a = "atom 9" and ?as2.0 = "[]"
      and ?s1.0 = "(fst ?s8, m_head_pred_ctr (fst ?s8) (fst (pred 8, [])) > 1, snd ?s8)"
      and st = "fst ?s8" and multi_head = "m_head_pred_ctr (fst ?s8) (fst (pred 8, [])) > 1"
      and sf = "snd ?s8", OF strata8 b8 rules8 tail8 r_nil t_nil adm8 cnt8]
  note promote = multiplier_guard_step [where env = ?env and proposed = prop_mult
      and orig = prog_mult
      and ?st0.0 = st_mult and ?cs1.0 = ?cs1 and stratum = "(pred 1, [])"
      and ?cs2.0 = "[]" and stp = "fst ?s1" and sfp = "snd ?s1"
      and ?rs1.0 = "[]" and r = "mk_rule 1 [2, 3] [] []" and ?rs2.0 = "[]"
      and ?as1.0 = "[]" and a = "atom 2" and ?as2.0 = "[atom 3]"
      and ?s1.0 = "(fst ?s1, m_head_pred_ctr (fst ?s1) (fst (pred 1, [])) > 1, snd ?s1)"
      and st = "fst ?s1" and multi_head = "m_head_pred_ctr (fst ?s1) (fst (pred 1, [])) > 1"
      and sf = "snd ?s1", OF strata1 b1 rules1 tail2 r_nil t_nil adm2 cnt2]
  note forbid = multiplier_guard_step [where env = ?env and proposed = prop_mult
      and orig = prog_mult
      and ?st0.0 = st_mult and ?cs1.0 = ?cs1 and stratum = "(pred 1, [])"
      and ?cs2.0 = "[]" and stp = "fst ?s1" and sfp = "snd ?s1"
      and ?rs1.0 = "[]" and r = "mk_rule 1 [2, 3] [] []" and ?rs2.0 = "[]"
      and ?as1.0 = "[atom 2]" and a = "atom 3" and ?as2.0 = "[]"
      and ?s1.0 = "(fst ?s1, m_head_pred_ctr (fst ?s1) (fst (pred 1, [])) > 1, snd ?s1)"
      and st = "fst (fst ?t)" and multi_head = "fst (snd (fst ?t))"
      and sf = "snd (snd (fst ?t))", OF strata1 b1 rules1 tail3 r_nil scan3 adm3 cnt3]
  have f: "m_forbidden_preds (fst (forbid_multiple_multipliers ?env st_mult prog_mult prop_mult)) =
             {pred 9, pred 1, pred 3}"
    unfolding occ by code_simp
  have h: "m_head_pred_ctr (fst (forbid_multiple_multipliers ?env st_mult prog_mult prop_mult))
             (pred 1) = 2"
    unfolding promote by code_simp
  have g: "snd (forbid_multiple_multipliers ?env st_mult prog_mult prop_mult)"
    unfolding forbid by code_simp
  have facts:
    "get_strats (get_stratifier prop_mult) =
       [(pred 5, []), (pred 6, []), (pred 2, []), (pred 3, []), (pred 9, []), (pred 8, []),
        (pred 1, [])]"
    "get_predicate_rules (rs_rules prop_mult) (pred 8) = [mk_rule 8 [9] [] []]"
    "get_predicate_rules (rs_rules prop_mult) (pred 1) = [mk_rule 1 [2, 3] [] []]"
    "inlining_allowed env_mult st_mult (pred 9)" "m_head_pred_ctr st_mult (pred 9) = 2"
    "m_head_pred_ctr st_mult (pred 8) = 1" "m_tail_pred_ctr st_mult (pred 8) = 2"
    "inlining_allowed env_mult st_mult (pred 2)" "m_head_pred_ctr st_mult (pred 2) = 2"
    "inlining_allowed env_mult st_mult (pred 3)" "m_head_pred_ctr st_mult (pred 3) = 2"
    "m_head_pred_ctr st_mult (pred 1) = 1" "m_tail_pred_ctr st_mult (pred 1) = 1"
    by code_simp+
  from facts f h g show ?thesis by blast
qed

section \<open>Oriented rewriters\<close>

lemma oriented_tail_iff:
  "oriented_tail strat hp hs ha as \<longleftrightarrow>
     (\<forall>a \<in> set as. \<not> (get_predicate_strat strat (fst a) = hs \<and>
        (get_arity (fst a) > ha \<or> (get_arity (fst a) = ha \<and> get_id (fst a) \<ge> get_id hp))))"
  by (induction as) (auto simp: Let_def)

lemma is_oriented_rewriter_iff:
  assumes "stratified_rule strat r"
  shows "is_oriented_rewriter r strat \<longleftrightarrow>
           (\<forall>a \<in> set (r_pos r). spec_lex_lower strat (fst a) (head_decl r))"
proof -
  have "\<And>a. a \<in> set (r_pos r) \<Longrightarrow>
          (\<not> (get_predicate_strat strat (fst a) = get_predicate_strat strat (head_decl r) \<and>
             (get_arity (fst a) > get_arity (head_decl r) \<or>
              (get_arity (fst a) = get_arity (head_decl r) \<and>
               get_id (fst a) \<ge> get_id (head_decl r))))) =
          spec_lex_lower strat (fst a) (head_decl r)"
  proof -
    fix a assume "a \<in> set (r_pos r)"
    then have "get_predicate_strat strat (fst a) \<le> get_predicate_strat strat (head_decl r)"
      using assms by (simp add: stratified_rule_def)
    then show "(\<not> (get_predicate_strat strat (fst a) = get_predicate_strat strat (head_decl r) \<and>
             (get_arity (fst a) > get_arity (head_decl r) \<or>
              (get_arity (fst a) = get_arity (head_decl r) \<and>
               get_id (fst a) \<ge> get_id (head_decl r))))) =
          spec_lex_lower strat (fst a) (head_decl r)"
      unfolding spec_lex_lower_def by linarith
  qed
  then show ?thesis
    unfolding is_oriented_rewriter_def Let_def oriented_tail_iff by simp
qed

lemma try_to_inline_rule_fst:
  "fst (try_to_inline_rule env st tgt src i) = norm_vars env tgt"
  by (simp add: try_to_inline_rule_def Let_def split: option.splits)

lemma find_candidate_mem:
  "find_candidate env r ti prs c = Some (Some cand) \<Longrightarrow> cand \<in> set prs \<or> c = Some cand"
  by (induction prs arbitrary: c) (auto split: if_splits)

lemma select_candidate_mem:
  "select_candidate env r ti prs = Some (Some cand) \<Longrightarrow> cand \<in> set prs"
  by (auto simp: select_candidate_def Let_def dest: find_candidate_mem split: if_splits)

lemma eager_tails_inlined:
  "eager_tails env st r rules tis = (True, Some res, st') \<Longrightarrow>
     \<exists>ti cand. ti \<in> set tis \<and> cand \<in> set (get_predicate_rules (rs_rules rules) (get_decl r ti)) \<and>
       is_oriented_rewriter cand (get_stratifier rules) \<and>
       try_to_inline_rule env st r cand ti = (norm_vars env r, Some res, st')"
proof (induction tis)
  case Nil
  then show ?case by simp
next
  case (Cons ti tis)
  show ?case
  proof (cases "get_decl r ti = head_decl r \<or> get_decl r ti \<in> m_preds_with_facts st")
    case True
    with Cons show ?thesis by (auto simp: Let_def)
  next
    case False
    note skip = this
    show ?thesis
    proof (cases "select_candidate env r ti (get_predicate_rules (rs_rules rules) (get_decl r ti))")
      case None
      with Cons skip show ?thesis by (auto simp: Let_def)
    next
      case (Some c)
      note sel = this
      show ?thesis
      proof (cases c)
        case None
        with Cons.prems skip sel show ?thesis by (auto simp: Let_def)
      next
        case (Some cand)
        note cand = this
        show ?thesis
        proof (cases "is_oriented_rewriter cand (get_stratifier rules)")
          case False
          with Cons skip cand sel show ?thesis
            by (auto simp: Let_def)
        next
          case True
          obtain r' x st'' where t: "try_to_inline_rule env st r cand ti = (r', x, st'')"
            by (cases "try_to_inline_rule env st r cand ti") auto
          have r': "r' = norm_vars env r"
            using try_to_inline_rule_fst [of env st r cand ti] t by simp
          from Cons.prems skip cand sel True t
          have "x = Some res \<and> st'' = st'"
            by (cases x) (auto simp: Let_def)
          moreover have "cand \<in> set (get_predicate_rules (rs_rules rules) (get_decl r ti))"
            using select_candidate_mem sel cand by blast
          ultimately show ?thesis using True t r' by auto
        qed
      qed
    qed
  qed
qed

text \<open>
  C5. For a rule \<open>r\<close> and a stratification (no positive tail predicate of \<open>r\<close> above the
  head of \<open>r\<close>), \<open>is_oriented_rewriter\<close> is true exactly when every positive tail
  predicate of \<open>r\<close> is lower than the head in the lexicographic ordering on stratum,
  arity and id. Every eager step that inlines (\<open>do_eager_inlining\<close> returns true with a
  rule) used \<open>try_to_inline_rule\<close> with a candidate that is a rule of the predicate of the
  tail atom and is an oriented rewriter.
\<close>

theorem oriented_rewriter_criterion:
  "(stratified_rule strat r \<longrightarrow>
      (is_oriented_rewriter r strat \<longleftrightarrow>
         (\<forall>a \<in> set (r_pos r). spec_lex_lower strat (fst a) (head_decl r)))) \<and>
   (do_eager_inlining_rule env st r0 rules = (True, Some res, st') \<longrightarrow>
      (\<exists>ti cand. ti < get_positive_tail_size r0 \<and>
         cand \<in> set (get_predicate_rules (rs_rules rules) (get_decl r0 ti)) \<and>
         is_oriented_rewriter cand (get_stratifier rules) \<and>
         try_to_inline_rule env st r0 cand ti = (norm_vars env r0, Some res, st')))"
proof (intro conjI impI)
  assume "stratified_rule strat r"
  then show "is_oriented_rewriter r strat \<longleftrightarrow>
         (\<forall>a \<in> set (r_pos r). spec_lex_lower strat (fst a) (head_decl r))"
    by (rule is_oriented_rewriter_iff)
next
  assume "do_eager_inlining_rule env st r0 rules = (True, Some res, st')"
  then have "eager_tails env st r0 rules [0 ..< get_positive_tail_size r0] = (True, Some res, st')"
    by (simp add: do_eager_inlining_rule_def)
  from eager_tails_inlined [OF this]
  show "\<exists>ti cand. ti < get_positive_tail_size r0 \<and>
         cand \<in> set (get_predicate_rules (rs_rules rules) (get_decl r0 ti)) \<and>
         is_oriented_rewriter cand (get_stratifier rules) \<and>
         try_to_inline_rule env st r0 cand ti = (norm_vars env r0, Some res, st')"
    by auto
qed

theorem oriented_rewriter_criterion_witness:
  "stratified_rule (get_stratifier (close_rules env_neg prog_neg)) (mk_rule 2 [3] [] []) \<and>
   (is_oriented_rewriter (mk_rule 2 [3] [] []) (get_stratifier (close_rules env_neg prog_neg)) \<longleftrightarrow>
      (\<forall>a \<in> set (r_pos (mk_rule 2 [3] [] [])).
         spec_lex_lower (get_stratifier (close_rules env_neg prog_neg)) (fst a)
           (head_decl (mk_rule 2 [3] [] [])))) \<and>
   do_eager_inlining_rule env_neg init_inliner (mk_rule 1 [2] [] []) (close_rules env_neg prog_neg) =
     (True, Some (mk_rule 1 [3] [] []),
      snd (snd (do_eager_inlining_rule env_neg init_inliner (mk_rule 1 [2] [] [])
        (close_rules env_neg prog_neg)))) \<and>
   (\<exists>ti cand. ti < get_positive_tail_size (mk_rule 1 [2] [] []) \<and>
      cand \<in> set (get_predicate_rules (rs_rules (close_rules env_neg prog_neg))
                (get_decl (mk_rule 1 [2] [] []) ti)) \<and>
      is_oriented_rewriter cand (get_stratifier (close_rules env_neg prog_neg)) \<and>
      try_to_inline_rule env_neg init_inliner (mk_rule 1 [2] [] []) cand ti =
        (norm_vars env_neg (mk_rule 1 [2] [] []), Some (mk_rule 1 [3] [] []),
         snd (snd (do_eager_inlining_rule env_neg init_inliner (mk_rule 1 [2] [] [])
           (close_rules env_neg prog_neg)))))"
proof -
  let ?rules = "close_rules env_neg prog_neg"
  let ?out = "do_eager_inlining_rule env_neg init_inliner (mk_rule 1 [2] [] []) ?rules"
  have s: "stratified_rule (get_stratifier ?rules) (mk_rule 2 [3] [] [])"
    by code_simp
  have e1: "fst ?out = True"
    by code_simp
  have e2: "fst (snd ?out) = Some (mk_rule 1 [3] [] [])"
    by code_simp
  have e: "?out = (True, Some (mk_rule 1 [3] [] []), snd (snd ?out))"
    using e1 e2 by (metis prod.collapse)
  show ?thesis
    using s e
      oriented_rewriter_criterion [of "get_stratifier ?rules" "mk_rule 2 [3] [] []"
        env_neg init_inliner "mk_rule 1 [2] [] []" ?rules "mk_rule 1 [3] [] []" "snd (snd ?out)"]
    by blast
qed

section \<open>The result of the pass\<close>

lemma concat_neq: "Concat c x \<noteq> c"
  by (induction c) auto

text \<open>
  C8 (as amended). When \<open>operator()\<close> returns, the result is null exactly when the
  source has no rule or none of the three stages reported a change; then the converters
  of the host are untouched. With a non-null result, every converter the host passed is
  replaced by its composition with the converter of the pass, and a converter the host
  did not pass stays absent: the converters are unchanged exactly when the result is null
  or the host passed none.
\<close>

theorem run_null_result:
  assumes "run env source mc pc = Some (res, mc', pc')"
  shows "(res = None \<longleftrightarrow>
            (source = [] \<or>
             (\<exists>st rs. run_stages env (start_state mc pc) source = Some (st, rs, False, False, False)))) \<and>
         (res = None \<longrightarrow> mc' = mc \<and> pc' = pc) \<and>
         (res \<noteq> None \<longrightarrow>
            (\<exists>st rs bulk_done eager_done linear_done.
               run_stages env (start_state mc pc) source =
                 Some (st, rs, bulk_done, eager_done, linear_done) \<and>
               res = Some rs \<and>
               mc' = map_option (\<lambda>c. Concat c (own_mc st)) mc \<and>
               pc' = map_option (\<lambda>c. Concat c (own_pc st)) pc)) \<and>
         (mc' = mc \<and> pc' = pc \<longleftrightarrow> res = None \<or> (mc = None \<and> pc = None))"
proof (cases "source = []")
  case True
  with assms show ?thesis by (simp add: run_def)
next
  case False
  with assms obtain st rs b e l where
    stages: "run_stages env (start_state mc pc) source = Some (st, rs, b, e, l)"
    by (auto simp: run_def split: option.splits)
  show ?thesis
  proof (cases "b \<or> e \<or> l")
    case False
    with assms stages \<open>source \<noteq> []\<close> show ?thesis
      by (auto simp: run_def)
  next
    case True
    with assms stages \<open>source \<noteq> []\<close>
    have r: "res = Some rs" "mc' = map_option (\<lambda>c. Concat c (own_mc st)) mc"
      "pc' = map_option (\<lambda>c. Concat c (own_pc st)) pc"
      by (auto simp: run_def split: option.splits)
    have "(mc' = mc \<and> pc' = pc) = (mc = None \<and> pc = None)"
      using r concat_neq by (cases mc; cases pc) auto
    with r stages True \<open>source \<noteq> []\<close> show ?thesis by auto
  qed
qed

text \<open>
  On \<open>Out(x) :- P(x)\<close> without converters the result is a rule set (the empty one) and
  the converters are unchanged all the same.
\<close>

theorem run_null_result_counterexample:
  "run env_dead prog_dead (None :: unit converter option) None = Some (Some [], None, None)"
  by code_simp

theorem run_null_result_witness:
  "run env_neg prog_neg (Some (Host ())) None =
     Some (Some [mk_rule 1 [3] [] [], mk_rule 4 [] [2] [], mk_rule 2 [3] [] []],
           Some (Concat (Host ()) (Horn_subsume [])), None) \<and>
   (\<exists>st. run_stages env_neg (start_state (Some (Host ())) (None :: unit converter option)) prog_neg =
      Some (st, [mk_rule 1 [3] [] [], mk_rule 4 [] [2] [], mk_rule 2 [3] [] []], False, True, False))"
proof -
  have r: "run env_neg prog_neg (Some (Host ())) None =
     Some (Some [mk_rule 1 [3] [] [], mk_rule 4 [] [2] [], mk_rule 2 [3] [] []],
           Some (Concat (Host ()) (Horn_subsume [])), None)"
    by code_simp
  have f: "map_option (\<lambda>x. (fst (snd (snd x)), fst (snd (snd (snd x))), snd (snd (snd (snd x)))))
             (run_stages env_neg (start_state (Some (Host ())) (None :: unit converter option)) prog_neg) =
           Some (False, True, False)"
    by code_simp
  show ?thesis
    using r f run_null_result [OF r]
    by auto
qed

section \<open>Deletion of rules by the eager inliner\<close>






section \<open>The tail index of the linear inliner\<close>






lemma acc_add_rule: "acc (add_rule env st ls r i) = acc ls"
  by (simp add: add_rule_def Let_def)

lemma valid_add_rule: "valid (add_rule env st ls r i) = valid ls"
  by (simp add: add_rule_def Let_def)








section \<open>What the bulk stage keeps and what it resolves with\<close>

lemma same_plan_refl [simp]: "same_plan st st"
  by (simp add: same_plan_def)

lemma same_plan_trans: "same_plan a b \<Longrightarrow> same_plan b c \<Longrightarrow> same_plan a c"
  by (simp add: same_plan_def)

lemma inlining_allowed_same_plan:
  "same_plan st st' \<Longrightarrow> inlining_allowed env st' p = inlining_allowed env st p"
  by (simp add: same_plan_def inlining_allowed_def)

lemma first_allowed_index_same_plan:
  "same_plan st st' \<Longrightarrow> first_allowed_index env st' r = first_allowed_index env st r"
  by (simp add: first_allowed_index_def inlining_allowed_same_plan)

lemma first_allowed_index_allowed:
  assumes "first_allowed_index env st r < get_positive_tail_size r"
  shows "inlining_allowed env st (get_decl r (first_allowed_index env st r))"
proof -
  let ?P = "\<lambda>a. \<not> inlining_allowed env st (fst a)"
  have lt: "length (takeWhile ?P (r_pos r)) < length (r_pos r)"
    using assms by (simp add: first_allowed_index_def get_positive_tail_size_def)
  then have "\<not> ?P (r_pos r ! length (takeWhile ?P (r_pos r)))"
    by (rule nth_length_takeWhile)
  moreover have "get_decl r (length (takeWhile ?P (r_pos r))) =
                 fst (r_pos r ! length (takeWhile ?P (r_pos r)))"
    using lt by (simp add: get_decl_def get_tail_def nth_append)
  ultimately show ?thesis by (simp add: first_allowed_index_def)
qed

lemma length_takeWhile_all:
  "(length (takeWhile P xs) = length xs) = (\<forall>x \<in> set xs. P x)"
proof -
  have a: "length (takeWhile P xs) + length (dropWhile P xs) = length xs"
    by (metis length_append takeWhile_dropWhile_id)
  have b: "(length (dropWhile P xs) = 0) = (\<forall>x \<in> set xs. P x)"
    by simp
  from a have "(length (takeWhile P xs) = length xs) = (length (dropWhile P xs) = 0)"
    by linarith
  with b show ?thesis by (simp only:)
qed

lemma first_allowed_index_none:
  "(first_allowed_index env st r = get_positive_tail_size r) =
     (\<forall>a \<in> set (r_pos r). \<not> inlining_allowed env st (fst a))"
  by (simp add: first_allowed_index_def get_positive_tail_size_def length_takeWhile_all)

lemma try_to_inline_rule_state:
  assumes "try_to_inline_rule env st tgt src i = (t', res, st')"
  shows "same_plan st st' \<and> m_mc st' = m_mc st \<and> m_inlined_rules st' = m_inlined_rules st \<and>
         set (pc_sources st') \<subseteq> insert src (set (pc_sources st))"
  using assms
  by (auto simp: try_to_inline_rule_def Let_def same_plan_def pc_sources_def
      split: if_splits option.splits)

lemma inline_rules_state:
  "inline_rules env st r pred_rules i = (r', results, st') \<Longrightarrow>
     same_plan st st' \<and> m_mc st' = m_mc st \<and> m_inlined_rules st' = m_inlined_rules st \<and>
     set (pc_sources st') \<subseteq> set pred_rules \<union> set (pc_sources st)"
proof (induction pred_rules arbitrary: st r r' results st')
  case Nil
  then show ?case by simp
next
  case (Cons inl rest)
  obtain r1 x st1 where t: "try_to_inline_rule env st r inl i = (r1, x, st1)"
    by (cases "try_to_inline_rule env st r inl i") auto
  obtain r2 ys st2 where u: "inline_rules env st1 r1 rest i = (r2, ys, st2)"
    by (cases "inline_rules env st1 r1 rest i") auto
  from Cons.prems t u have st': "st' = st2" by simp
  from try_to_inline_rule_state [OF t] Cons.IH [OF u] st'
  show ?case
    by (auto intro: same_plan_trans)
qed

lemma transform_rule_loop_state:
  assumes "transform_rule_loop env al st tgt todo modified = Some y"
  shows "same_plan st (fst y) \<and> m_mc (fst y) = m_mc st \<and>
     m_inlined_rules (fst y) = m_inlined_rules st \<and>
     (\<exists>new. fst (snd y) = tgt @ new) \<and>
     (\<forall>s \<in> set (pc_sources (fst y)).
        s \<in> set (pc_sources st) \<or> inlining_allowed env st (head_decl s))"
  using assms
proof (induct rule: transform_rule_loop.raw_induct [rotated, consumes 1])
  case (1 loop env al st tgt todo modified y)
  show ?case
  proof (cases todo)
    case Nil
    with 1(2) show ?thesis by auto
  next
    case (Cons r todo')
    show ?thesis
    proof (cases "has_quantifier r")
      case True
      with 1(2) Cons have "loop env al st tgt todo' modified = Some y"
        by (simp add: Let_def)
      from 1(1) [OF this] show ?thesis .
    next
      case False
      note nq = this
      show ?thesis
      proof (cases "first_allowed_index env st r = get_positive_tail_size r")
        case True
        with 1(2) Cons nq have "loop env al st (tgt @ [r]) todo' modified = Some y"
          by (simp add: Let_def)
        from 1(1) [OF this] show ?thesis by auto
      next
        case False
        let ?i = "first_allowed_index env st r"
        let ?pred = "get_decl r ?i"
        let ?rules = "get_predicate_rules (if al then tgt else m_inlined_rules st) ?pred"
        obtain r' results st1 where inl: "inline_rules env st r ?rules ?i = (r', results, st1)"
          by (cases "inline_rules env st r ?rules ?i") auto
        with 1(2) Cons nq False
        have rec: "loop env al st1 tgt (rev results @ todo') True = Some y"
          by (simp add: Let_def)
        note ih = 1(1) [OF rec]
        note fr = inline_rules_state [OF inl]
        have lt: "?i < get_positive_tail_size r"
          using False
          by (metis first_allowed_index_def get_positive_tail_size_def length_takeWhile_le
              le_neq_implies_less)
        have adm: "inlining_allowed env st ?pred"
          using first_allowed_index_allowed [OF lt] .
        have heads: "\<forall>s \<in> set ?rules. head_decl s = ?pred"
          by (simp add: get_predicate_rules_def)
        have "\<forall>s \<in> set (pc_sources (fst y)).
                s \<in> set (pc_sources st) \<or> inlining_allowed env st (head_decl s)"
        proof
          fix s assume "s \<in> set (pc_sources (fst y))"
          with ih have "s \<in> set (pc_sources st1) \<or> inlining_allowed env st1 (head_decl s)"
            by blast
          then show "s \<in> set (pc_sources st) \<or> inlining_allowed env st (head_decl s)"
            using fr heads adm inlining_allowed_same_plan [of st st1 env "head_decl s"]
            by auto
        qed
        with ih fr show ?thesis
          by (auto intro: same_plan_trans)
      qed
    qed
  qed
qed

lemma transform_rule_kept:
  assumes "\<not> has_quantifier r" and "\<forall>a \<in> set (r_pos r). \<not> inlining_allowed env st (fst a)"
  shows "transform_rule env al st r tgt = Some (st, tgt @ [r], False)"
proof -
  have i: "first_allowed_index env st r = get_positive_tail_size r"
    using assms(2) by (simp add: first_allowed_index_none)
  have "transform_rule_loop env al st (tgt @ [r]) [] False = Some (st, tgt @ [r], False)"
    by (subst transform_rule_loop.simps) simp
  then have "transform_rule_loop env al st tgt [r] False = Some (st, tgt @ [r], False)"
    using assms(1) i by (subst transform_rule_loop.simps) (simp add: Let_def)
  then show ?thesis by (simp add: transform_rule_def)
qed

lemma transform_rules_state:
  "transform_rules env st orig tgt d = Some y \<Longrightarrow>
     same_plan st (fst y) \<and> m_mc (fst y) = m_mc st \<and>
     m_inlined_rules (fst y) = m_inlined_rules st \<and>
     (\<exists>new. fst (snd y) = tgt @ new) \<and>
     (\<forall>s \<in> set (pc_sources (fst y)).
        s \<in> set (pc_sources st) \<or> inlining_allowed env st (head_decl s)) \<and>
     (\<forall>r \<in> set orig.
        \<not> inlining_allowed env st (head_decl r) \<and> \<not> has_quantifier r \<and>
        (\<forall>a \<in> set (r_pos r). \<not> inlining_allowed env st (fst a)) \<longrightarrow> r \<in> set (fst (snd y)))"
proof (induction orig arbitrary: st tgt d)
  case Nil
  then show ?case by auto
next
  case (Cons r rs)
  show ?case
  proof (cases "inlining_allowed env st (head_decl r)")
    case True
    with Cons.prems have "transform_rules env st rs tgt d = Some y" by simp
    from Cons.IH [OF this] True show ?thesis by auto
  next
    case False
    with Cons.prems obtain st1 tgt1 m where
      t: "transform_rule env False st r tgt = Some (st1, tgt1, m)" and
      rest: "transform_rules env st1 rs tgt1 (d \<or> m) = Some y"
      by (auto split: option.splits)
    from t have "transform_rule_loop env False st tgt [r] False = Some (st1, tgt1, m)"
      by (simp add: transform_rule_def)
    note a = transform_rule_loop_state [OF this, simplified]
    note b = Cons.IH [OF rest]
    have sp: "same_plan st st1" using a by simp
    have allowed: "\<And>p. inlining_allowed env st1 p = inlining_allowed env st p"
      by (rule inlining_allowed_same_plan [OF sp])
    have c1: "same_plan st (fst y)" using a b by (blast intro: same_plan_trans)
    have c2: "m_mc (fst y) = m_mc st" "m_inlined_rules (fst y) = m_inlined_rules st"
      using a b by auto
    have c3: "\<exists>new. fst (snd y) = tgt @ new" using a b by auto
    have c4: "\<forall>s \<in> set (pc_sources (fst y)).
        s \<in> set (pc_sources st) \<or> inlining_allowed env st (head_decl s)"
      using a b allowed by blast
    have c5: "\<forall>r' \<in> set (r # rs).
        \<not> inlining_allowed env st (head_decl r') \<and> \<not> has_quantifier r' \<and>
        (\<forall>a \<in> set (r_pos r'). \<not> inlining_allowed env st (fst a)) \<longrightarrow> r' \<in> set (fst (snd y))"
    proof (intro ballI impI)
      fix r' assume mem: "r' \<in> set (r # rs)" and
        k: "\<not> inlining_allowed env st (head_decl r') \<and> \<not> has_quantifier r' \<and>
            (\<forall>a \<in> set (r_pos r'). \<not> inlining_allowed env st (fst a))"
      show "r' \<in> set (fst (snd y))"
      proof (cases "r' = r")
        case True
        with k t transform_rule_kept [of r env st False tgt]
        have "tgt1 = tgt @ [r]" by simp
        with b True show ?thesis by auto
      next
        case False
        with mem have "r' \<in> set rs" by simp
        with b k allowed show ?thesis by auto
      qed
    qed
    from c1 c2 c3 c4 c5 show ?thesis by blast
  qed
qed

lemma pc_sources_inlined [simp]: "pc_sources (st\<lparr>m_inlined_rules := x\<rparr>) = pc_sources st"
  by (simp add: pc_sources_def)

lemma same_plan_inlined [simp]: "same_plan st (st'\<lparr>m_inlined_rules := x\<rparr>) = same_plan st st'"
  by (simp add: same_plan_def)

lemma same_plan_inlined_left [simp]: "same_plan (st\<lparr>m_inlined_rules := x\<rparr>) st' = same_plan st st'"
  by (simp add: same_plan_def)

lemma plan_pred_rules_state:
  "plan_pred_rules env st rs = Some st' \<Longrightarrow>
     same_plan st st' \<and> m_mc st' = m_mc st \<and>
     (\<forall>s \<in> set (pc_sources st').
        s \<in> set (pc_sources st) \<or> inlining_allowed env st (head_decl s))"
proof (induction rs arbitrary: st)
  case Nil
  then show ?case by simp
next
  case (Cons r rs)
  from Cons.prems obtain st1 tgt1 m where
    t: "transform_rule env True st r (m_inlined_rules st) = Some (st1, tgt1, m)" and
    rest: "plan_pred_rules env (st1\<lparr>m_inlined_rules := tgt1\<rparr>) rs = Some st'"
    by (auto split: option.splits)
  from t have "transform_rule_loop env True st (m_inlined_rules st) [r] False = Some (st1, tgt1, m)"
    by (simp add: transform_rule_def)
  note a = transform_rule_loop_state [OF this, simplified]
  note b = Cons.IH [OF rest, simplified]
  have sp: "same_plan st st1" using a by simp
  have sp': "same_plan st (st1\<lparr>m_inlined_rules := tgt1\<rparr>)" using sp by simp
  have allowed: "\<And>p. inlining_allowed env (st1\<lparr>m_inlined_rules := tgt1\<rparr>) p = inlining_allowed env st p"
    by (rule inlining_allowed_same_plan [OF sp'])
  from a b allowed show ?case
    by (auto intro: same_plan_trans)
qed

lemma plan_strata_state:
  "plan_strata env st candidate comps = Some st' \<Longrightarrow>
     same_plan st st' \<and> m_mc st' = m_mc st \<and>
     (\<forall>s \<in> set (pc_sources st').
        s \<in> set (pc_sources st) \<or> inlining_allowed env st (head_decl s))"
proof (induction comps arbitrary: st)
  case Nil
  then show ?case by simp
next
  case (Cons c comps)
  from Cons.prems obtain st1 where
    p: "plan_pred_rules env st (get_predicate_rules (rs_rules candidate) (fst c)) = Some st1" and
    rest: "plan_strata env st1 candidate comps = Some st'"
    by (auto split: option.splits)
  note a = plan_pred_rules_state [OF p]
  note b = Cons.IH [OF rest]
  have allowed: "\<And>p. inlining_allowed env st1 p = inlining_allowed env st p"
    using a by (simp add: inlining_allowed_same_plan)
  from a b allowed show ?case
    by (auto intro: same_plan_trans)
qed

lemma same_log_refl [simp]: "same_log st st"
  by (simp add: same_log_def)

lemma same_log_trans: "same_log a b \<Longrightarrow> same_log b c \<Longrightarrow> same_log a c"
  by (simp add: same_log_def)

lemma mm_tail_step_log:
  "same_log st (fst (fst (mm_tail_step env hp imo (st, b, c) q)))"
  by (simp add: mm_tail_step_def Let_def same_log_def)

lemma mm_tail_loop_log:
  "same_log (fst s) (fst (fst (mm_tail_loop env hp imo s as)))"
proof (induction as arbitrary: s)
  case Nil
  then show ?case by simp
next
  case (Cons a as)
  obtain st b c where s: "s = (st, b, c)" by (cases s) auto
  obtain s' j where t: "mm_tail_step env hp imo s (fst a) = (s', j)"
    by (cases "mm_tail_step env hp imo s (fst a)") auto
  have "same_log (fst s) (fst s')"
    using mm_tail_step_log [of st env hp imo b c "fst a"] s t by simp
  with Cons.IH [of s'] t show ?case
    by (cases j) (auto intro: same_log_trans)
qed

lemma mm_rule_loop_log:
  "same_log (fst s) (fst (fst (mm_rule_loop env hp imo s rs)))"
proof (induction rs arbitrary: s)
  case Nil
  then show ?case by simp
next
  case (Cons r rs)
  obtain s' j where t: "mm_tail_loop env hp imo s (r_pos r) = (s', j)"
    by (cases "mm_tail_loop env hp imo s (r_pos r)") auto
  have "same_log (fst s) (fst s')"
    using mm_tail_loop_log [of s env hp imo "r_pos r"] t by simp
  with Cons.IH [of s'] t show ?case
    by (cases j) (auto intro: same_log_trans)
qed

lemma mm_stratum_log:
  "same_log (fst s) (fst (mm_stratum env proposed s stratum))"
proof -
  obtain st sf where s: "s = (st, sf)" by (cases s) auto
  let ?loop = "mm_rule_loop env (fst stratum) (m_tail_pred_ctr st (fst stratum) > 1)
                 (st, m_head_pred_ctr st (fst stratum) > 1, sf)
                 (get_predicate_rules (rs_rules proposed) (fst stratum))"
  obtain st' imh sf' j where l: "?loop = ((st', imh, sf'), j)"
    by (cases ?loop) auto
  have "same_log st (fst (fst ?loop))"
    using mm_rule_loop_log [of "(st, m_head_pred_ctr st (fst stratum) > 1, sf)" env] by simp
  with l have "same_log st st'" by simp
  then show ?thesis
    using s l by (simp add: mm_stratum_def Let_def)
qed

lemma foldl_log:
  assumes "\<And>s x. same_log (fst s) (fst (f s x))"
  shows "same_log (fst s) (fst (foldl f s xs))"
proof (induction xs arbitrary: s)
  case Nil
  then show ?case by simp
next
  case (Cons x xs)
  from assms [of s x] Cons.IH [of "f s x"] show ?case
    by (auto intro: same_log_trans)
qed

lemma mm_orig_tail_step_log:
  "same_log (fst s) (fst (mm_orig_tail_step env s a))"
  by (cases s) (simp add: mm_orig_tail_step_def Let_def same_log_def)

lemma mm_orig_rule_log:
  "same_log (fst s) (fst (mm_orig_rule env s r))"
proof -
  obtain st sf where s: "s = (st, sf)" by (cases s) auto
  let ?f = "foldl (mm_orig_tail_step env) (st, False, sf) (r_pos r)"
  obtain st' hm sf' where l: "?f = (st', hm, sf')"
    by (cases ?f) auto
  have "same_log (fst (st, False, sf)) (fst ?f)"
    by (rule foldl_log) (rule mm_orig_tail_step_log)
  with l have "same_log st st'" by simp
  then show ?thesis
    using s l by (simp add: mm_orig_rule_def)
qed

lemma forbid_multiple_multipliers_log:
  "same_log st (fst (forbid_multiple_multipliers env st orig proposed))"
proof -
  let ?a = "foldl (mm_stratum env proposed) (st, False) (get_strats (get_stratifier proposed))"
  have "same_log (fst (st, False)) (fst ?a)"
    by (rule foldl_log) (rule mm_stratum_log)
  then have "same_log st (fst ?a)" by simp
  moreover have "same_log (fst ?a) (fst (foldl (mm_orig_rule env) ?a orig))"
    by (rule foldl_log) (rule mm_orig_rule_log)
  ultimately show ?thesis
    by (auto simp: forbid_multiple_multipliers_def intro: same_log_trans)
qed

lemma forbid_strata_log:
  "same_log st (fst (forbid_strata st comps sf))"
proof (induction comps arbitrary: st sf)
  case Nil
  then show ?case by simp
next
  case (Cons c comps)
  have "same_log st (st\<lparr>m_forbidden_preds := insert (fst c) (m_forbidden_preds st)\<rparr>)"
    by (simp add: same_log_def)
  with Cons.IH show ?case
    by (auto intro: same_log_trans)
qed

lemma forbid_cycles_loop_log:
  assumes "forbid_cycles_loop env st orig candidate = Some y"
  shows "same_log st (fst y)"
  using assms
proof (induct rule: forbid_cycles_loop.raw_induct [rotated, consumes 1])
  case (1 loop env st orig candidate y)
  obtain st1 b where f: "forbid_preds_from_cycles st candidate = (st1, b)"
    by (cases "forbid_preds_from_cycles st candidate") auto
  have l: "same_log st st1"
    using forbid_strata_log [of st "get_strats (get_stratifier candidate)" False] f
    by (simp add: forbid_preds_from_cycles_def)
  show ?case
  proof (cases b)
    case True
    with 1(2) f have "loop env st1 orig (create_allowed_rule_set env st1 orig) = Some y" by simp
    from 1(1) [OF this] l show ?thesis by (rule same_log_trans [rotated])
  next
    case False
    with 1(2) f l show ?thesis by auto
  qed
qed

lemma count_tail_atom_state:
  "m_pc (count_tail_atom st t) = m_pc st \<and> m_mc (count_tail_atom st t) = m_mc st \<and>
   m_preds_with_neg_occurrence st \<subseteq> m_preds_with_neg_occurrence (count_tail_atom st t) \<and>
   (snd t \<longrightarrow> fst (fst t) \<in> m_preds_with_neg_occurrence (count_tail_atom st t))"
  by (auto simp: count_tail_atom_def Let_def)

lemma foldl_count_tail_atom_state:
  "m_pc (foldl count_tail_atom st ts) = m_pc st \<and> m_mc (foldl count_tail_atom st ts) = m_mc st \<and>
   m_preds_with_neg_occurrence st \<subseteq> m_preds_with_neg_occurrence (foldl count_tail_atom st ts) \<and>
   (\<forall>t \<in> set ts. snd t \<longrightarrow> fst (fst t) \<in> m_preds_with_neg_occurrence (foldl count_tail_atom st ts))"
proof (induction ts arbitrary: st)
  case Nil
  then show ?case by simp
next
  case (Cons t ts)
  from count_tail_atom_state [of st t] Cons.IH [of "count_tail_atom st t"]
  show ?case by auto
qed

lemma count_rule_state:
  "m_pc (count_rule st r) = m_pc st \<and> m_mc (count_rule st r) = m_mc st \<and>
   m_preds_with_neg_occurrence st \<subseteq> m_preds_with_neg_occurrence (count_rule st r) \<and>
   (\<forall>a \<in> set (r_neg r). fst a \<in> m_preds_with_neg_occurrence (count_rule st r))"
proof -
  obtain st1 where e: "count_rule st r = foldl count_tail_atom st1 (uninterpreted_tail r)"
    and b: "m_pc st1 = m_pc st" "m_mc st1 = m_mc st"
      "m_preds_with_neg_occurrence st1 = m_preds_with_neg_occurrence st"
    by (cases "get_tail_size r > 0") (simp_all add: count_rule_def Let_def)
  note f = foldl_count_tail_atom_state [of st1 "uninterpreted_tail r"]
  have n: "\<forall>a \<in> set (r_neg r). fst a \<in> m_preds_with_neg_occurrence (count_rule st r)"
  proof
    fix a assume "a \<in> set (r_neg r)"
    then have "(a, True) \<in> set (uninterpreted_tail r)"
      by (simp add: uninterpreted_tail_def)
    with f e show "fst a \<in> m_preds_with_neg_occurrence (count_rule st r)"
      by fastforce
  qed
  from f e b n show ?thesis by simp
qed

lemma foldl_count_rule_state:
  "m_pc (foldl count_rule st rs) = m_pc st \<and> m_mc (foldl count_rule st rs) = m_mc st \<and>
   m_preds_with_neg_occurrence st \<subseteq> m_preds_with_neg_occurrence (foldl count_rule st rs) \<and>
   (\<forall>r \<in> set rs. \<forall>a \<in> set (r_neg r).
      fst a \<in> m_preds_with_neg_occurrence (foldl count_rule st rs))"
proof (induction rs arbitrary: st)
  case Nil
  then show ?case by simp
next
  case (Cons r rs)
  from count_rule_state [of st r] Cons.IH [of "count_rule st r"]
  show ?case by (auto simp: subset_iff)
qed

lemma count_pred_occurrences_state:
  "m_pc (count_pred_occurrences env st orig) = m_pc st \<and>
   m_mc (count_pred_occurrences env st orig) = m_mc st \<and>
   (\<forall>r \<in> set orig. \<forall>a \<in> set (r_neg r).
      fst a \<in> m_preds_with_neg_occurrence (count_pred_occurrences env st orig))"
  using foldl_count_rule_state
    [of "st\<lparr>m_preds_with_facts := m_preds_with_facts st \<union> collect_non_empty_predicates env\<rparr>" orig]
  by (simp add: count_pred_occurrences_def)

lemma plan_inlining_state:
  assumes "plan_inlining env st0 orig = Some st1"
  shows "m_mc st1 = m_mc st0 \<and>
         (\<forall>r \<in> set orig. \<forall>a \<in> set (r_neg r). fst a \<in> m_preds_with_neg_occurrence st1) \<and>
         (\<forall>s \<in> set (pc_sources st1).
            s \<in> set (pc_sources st0) \<or> inlining_allowed env st1 (head_decl s))"
proof -
  let ?c = "count_pred_occurrences env st0 orig"
  from assms obtain st2 cand where
    f: "forbid_cycles_loop env ?c orig (create_allowed_rule_set env ?c orig) = Some (st2, cand)"
    by (auto simp: plan_inlining_def Let_def split: option.splits)
  obtain st3 b where m: "forbid_multiple_multipliers env st2 orig cand = (st3, b)"
    by (cases "forbid_multiple_multipliers env st2 orig cand") auto
  let ?cand = "if b then create_allowed_rule_set env st3 orig else cand"
  from assms f m have p: "plan_strata env st3 ?cand (get_strats (get_stratifier ?cand)) = Some st1"
    by (simp add: plan_inlining_def Let_def)
  note c = count_pred_occurrences_state [of env st0 orig]
  have l2: "same_log ?c st2" using forbid_cycles_loop_log [OF f] by simp
  have l3: "same_log st2 st3" using forbid_multiple_multipliers_log [of st2 env orig cand] m by simp
  have l: "same_log ?c st3" using l2 l3 by (rule same_log_trans)
  note s = plan_strata_state [OF p]
  have pcs: "pc_sources st3 = pc_sources st0"
    using l c by (simp add: same_log_def pc_sources_def)
  have neg: "m_preds_with_neg_occurrence st1 = m_preds_with_neg_occurrence ?c"
    using l s by (simp add: same_log_def same_plan_def)
  have mc: "m_mc st1 = m_mc st0"
    using l s c by (simp add: same_log_def)
  have allowed: "\<And>p. inlining_allowed env st1 p = inlining_allowed env st3 p"
    using s by (simp add: inlining_allowed_same_plan)
  from s pcs neg mc allowed c show ?thesis by auto
qed

text \<open>
  C3 (as amended). In the bulk stage (planning and \<open>transform_rules\<close>) a predicate that
  occurs negated in the input is not admissible, and no rule of it is the source of a
  resolution step: every resolution record the stage adds to the proof converter has a
  source rule with another head predicate. The eager and linear inliners make no such
  check.
\<close>

theorem bulk_never_inlines_negated:
  assumes "plan_inlining env st0 orig = Some st1"
    and "transform_rules env st1 orig [] False = Some (st2, res, d)"
    and "r \<in> set orig" and "a \<in> set (r_neg r)"
  shows "\<not> inlining_allowed env st1 (fst a) \<and>
         (\<forall>s \<in> set (pc_sources st2). head_decl s = fst a \<longrightarrow> s \<in> set (pc_sources st0))"
proof -
  note p = plan_inlining_state [OF assms(1)]
  note t = transform_rules_state [OF assms(2), simplified]
  have neg: "fst a \<in> m_preds_with_neg_occurrence st1"
    using p assms(3,4) by blast
  then have na: "\<not> inlining_allowed env st1 (fst a)"
    by (simp add: inlining_allowed_def)
  have "\<forall>s \<in> set (pc_sources st2). head_decl s = fst a \<longrightarrow> s \<in> set (pc_sources st0)"
  proof (intro ballI impI)
    fix s assume "s \<in> set (pc_sources st2)" and h: "head_decl s = fst a"
    with t have "s \<in> set (pc_sources st1) \<or> inlining_allowed env st1 (head_decl s)" by blast
    with na h have "s \<in> set (pc_sources st1)" by simp
    with p na h show "s \<in> set (pc_sources st0)" by auto
  qed
  with na show ?thesis by simp
qed

text \<open>
  In \<open>A(x) :- P(x). B(x) :- not P(x). P(x) :- Q(x).\<close> the predicate \<open>P\<close> occurs
  negated, and the eager inliner resolves \<open>A(x) :- P(x)\<close> with the rule of \<open>P\<close>: the
  proof converter gets the record of it and the result holds \<open>A(x) :- Q(x)\<close>.
\<close>

theorem eager_inlines_negated_predicate:
  "run env_neg prog_neg (Some (Host ())) (Some (Host ())) =
     Some (Some [mk_rule 1 [3] [] [], mk_rule 4 [] [2] [], mk_rule 2 [3] [] []],
           Some (Concat (Host ()) (Horn_subsume [])),
           Some (Concat (Host ()) (Replace_proof
             [(mk_rule 1 [2] [] [], mk_rule 2 [3] [] [], 0, [Var 0], [Var 0],
               mk_rule 1 [3] [] [])])))"
  by code_simp

theorem bulk_never_inlines_negated_witness:
  "plan_inlining env_neg2 (start_state (Some (Host ())) (Some (Host ()))) prog_neg2 \<noteq> None \<and>
   transform_rules env_neg2
     (the (plan_inlining env_neg2 (start_state (Some (Host ())) (Some (Host ()))) prog_neg2))
     prog_neg2 [] False \<noteq> None \<and>
   pc_sources (fst (the (transform_rules env_neg2
     (the (plan_inlining env_neg2 (start_state (Some (Host ())) (Some (Host ()))) prog_neg2))
     prog_neg2 [] False))) = [mk_rule 6 [3] [] []] \<and>
   \<not> inlining_allowed env_neg2
     (the (plan_inlining env_neg2 (start_state (Some (Host ())) (Some (Host ()))) prog_neg2))
     (fst (atom 2))"
proof -
  let ?st0 = "start_state (Some (Host ())) (Some (Host ()))"
  let ?p = "plan_inlining env_neg2 ?st0 prog_neg2"
  let ?t = "transform_rules env_neg2 (the ?p) prog_neg2 [] False"
  have p: "\<not> Option.is_none ?p" by code_simp
  have t: "\<not> Option.is_none ?t" by code_simp
  have src: "pc_sources (fst (the ?t)) = [mk_rule 6 [3] [] []]" by code_simp
  have pe: "?p = Some (the ?p)" using p by (simp add: Option.is_none_def)
  have te: "?t = Some (fst (the ?t), fst (snd (the ?t)), snd (snd (the ?t)))"
    using t by (simp add: Option.is_none_def)
  have r: "mk_rule 4 [] [2] [] \<in> set prog_neg2" by (simp add: prog_neg2_def)
  have a: "atom 2 \<in> set (r_neg (mk_rule 4 [] [2] []))" by (simp add: mk_rule_def)
  from bulk_never_inlines_negated [OF pe te r a] p t src
  show ?thesis by (simp add: Option.is_none_def)
qed

section \<open>Rules with a quantifier\<close>

text \<open>
  C2. \<open>transform_rule\<close> pops a rule with a quantifier in its interpreted tail and goes
  on without adding it to the target: on \<open>Out(x) :- Q(x), \<phi>. A(x) :- P(x). P(x) :- Q(x).\<close>
  with a quantifier in \<open>\<phi>\<close> the result of the pass is \<open>A(x) :- Q(x)\<close> alone, and
  the model converter of the pass has no record of a deleted rule.
\<close>

theorem bulk_drops_quantified_rule:
  "run env_quant prog_quant (Some (Host ())) None =
     Some (Some [mk_rule 1 [3] [] []], Some (Concat (Host ()) (Horn_subsume [])), None)"
  by code_simp

section \<open>Positions the linear inliner never invalidates\<close>

lemma add_position_bound:
  assumes "\<forall>kv \<in> set m. \<forall>p \<in> set (snd kv). p < sz" and "j < sz"
  shows "\<forall>kv \<in> set (add_position m e j). \<forall>p \<in> set (snd kv). p < sz"
  using assms by (induction m) auto

lemma del_position_bound:
  assumes "\<forall>kv \<in> set m. \<forall>p \<in> set (snd kv). p < sz"
  shows "\<forall>kv \<in> set (del_position m e j). \<forall>p \<in> set (snd kv). p < sz"
  using assms
proof (induction m)
  case Nil
  then show ?case by simp
next
  case (Cons kv m)
  have "\<And>p. p \<in> set (remove1 j (snd kv)) \<Longrightarrow> p \<in> set (snd kv)"
    by (meson set_remove1_subset subsetD)
  with Cons show ?case by auto
qed

lemma add_rule_inv:
  assumes "linear_inv sz K ls" and "i < sz"
  shows "linear_inv sz K (add_rule env st ls r i)"
proof -
  have h: "\<forall>kv \<in> set (add_position (head_positions ls) (get_head r) i). \<forall>p \<in> set (snd kv). p < sz"
    using assms by (intro add_position_bound) (auto simp: linear_inv_def)
  show ?thesis
    using assms h
    by (auto simp: linear_inv_def add_rule_def Let_def nth_list_update)
qed

lemma del_rule_inv:
  assumes "linear_inv sz K ls"
  shows "linear_inv sz K (del_rule ls r i)"
proof -
  have h: "\<forall>kv \<in> set (del_position (head_positions ls) (get_head r) i). \<forall>p \<in> set (snd kv). p < sz"
    using assms by (intro del_position_bound) (auto simp: linear_inv_def)
  show ?thesis
    using assms h by (auto simp: linear_inv_def del_rule_def)
qed

lemma linear_inv_acc:
  "linear_inv sz K ls \<Longrightarrow> linear_inv sz K (ls\<lparr>acc := (acc ls)[i := r]\<rparr>)"
  by (simp add: linear_inv_def)

lemma linear_inv_can_expand:
  "linear_inv sz K ls \<Longrightarrow> linear_inv sz K (ls\<lparr>can_expand := x\<rparr>)"
  by (simp add: linear_inv_def)

lemma linear_inv_valid:
  assumes "linear_inv sz K ls" and "can_remove ls ! j"
  shows "linear_inv sz K (ls\<lparr>valid := (valid ls)[j := False]\<rparr>)"
proof -
  have "\<forall>i \<in> K. (valid ls)[j := False] ! i"
  proof
    fix i assume "i \<in> K"
    with assms have "i \<noteq> j" and "valid ls ! i" by (auto simp: linear_inv_def)
    then show "(valid ls)[j := False] ! i" by simp
  qed
  with assms(1) show ?thesis by (simp add: linear_inv_def)
qed

lemma linear_step_break:
  "linear_break env ls i \<Longrightarrow> linear_step env st ls i = (False, st, ls)"
  unfolding linear_step_def linear_break_def Let_def by (simp split: if_splits) blast

lemma linear_step_go:
  assumes "\<not> linear_break env ls i"
  shows "linear_step env st ls i =
     (let j = index_unify env (head_positions ls) (get_tail (acc ls ! i) 0) ! 0;
          r2 = acc ls ! j
      in case try_to_inline_rule env st (acc ls ! i) r2 0 of
           (r', None, st') \<Rightarrow> (False, st', ls\<lparr>acc := (acc ls)[i := r']\<rparr>)
         | (r', Some rl_res, st') \<Rightarrow>
             if length (index_unify env (tail_positions ls) (get_head r2)) = 1
             then (True, mc_del_rule st' r2,
                   del_rule ((linear_inlined env st' ls i r' rl_res)
                     \<lparr>valid := (valid (linear_inlined env st' ls i r' rl_res))[j := False]\<rparr>) r2 j)
             else (True, st', linear_inlined env st' ls i r' rl_res))"
  using assms
  unfolding linear_step_def linear_break_def linear_inlined_def Let_def
  by (simp split: if_splits) blast

lemma linear_inlined_inv:
  assumes "linear_inv sz K ls" and "i < sz"
  shows "linear_inv sz K (linear_inlined env st' ls i r' rl_res)"
  unfolding linear_inlined_def Let_def
  using assms by (intro linear_inv_can_expand linear_inv_acc add_rule_inv del_rule_inv)

lemma linear_inlined_can_remove:
  assumes "can_remove ls ! j" and "i \<noteq> j"
  shows "can_remove (linear_inlined env st' ls i r' rl_res) ! j"
  using assms by (simp add: linear_inlined_def add_rule_def del_rule_def Let_def)

lemma linear_step_inv:
  assumes "linear_inv sz K ls" and "i < sz"
  shows "linear_inv sz K (snd (snd (linear_step env st ls i)))"
proof (cases "linear_break env ls i")
  case True
  with assms(1) show ?thesis by (simp add: linear_step_break)
next
  case False
  let ?j = "index_unify env (head_positions ls) (get_tail (acc ls ! i) 0) ! 0"
  obtain r' x st' where t: "try_to_inline_rule env st (acc ls ! i) (acc ls ! ?j) 0 = (r', x, st')"
    by (cases "try_to_inline_rule env st (acc ls ! i) (acc ls ! ?j) 0") auto
  show ?thesis
  proof (cases x)
    case None
    with False t assms(1) show ?thesis
      by (simp add: linear_step_go Let_def linear_inv_acc)
  next
    case (Some rl_res)
    let ?l = "linear_inlined env st' ls i r' rl_res"
    have i4: "linear_inv sz K ?l"
      using assms by (rule linear_inlined_inv)
    have "can_remove ls ! ?j" and "i \<noteq> ?j"
      using False by (auto simp: linear_break_def Let_def)
    then have cr: "can_remove ?l ! ?j"
      by (rule linear_inlined_can_remove)
    have "linear_inv sz K (?l\<lparr>valid := (valid ?l)[?j := False]\<rparr>)"
      using i4 cr by (rule linear_inv_valid)
    then have i5: "linear_inv sz K (del_rule (?l\<lparr>valid := (valid ?l)[?j := False]\<rparr>) (acc ls ! ?j) ?j)"
      by (rule del_rule_inv)
    from False t Some i4 i5 show ?thesis
      by (simp add: linear_step_go Let_def)
  qed
qed

lemma linear_while_inv:
  assumes "linear_while env st ls i d = Some y" and "linear_inv sz K ls" and "i < sz"
  shows "linear_inv sz K (fst (snd y))"
  using assms
proof (induct rule: linear_while.raw_induct [rotated, consumes 1])
  case (1 loop env st ls i d y)
  obtain c st' ls' where s: "linear_step env st ls i = (c, st', ls')"
    by (cases "linear_step env st ls i") auto
  have inv: "linear_inv sz K ls'"
    using linear_step_inv [OF 1(3) 1(4), of env st] s by simp
  show ?case
  proof (cases c)
    case True
    with 1(2) s have "loop env st' ls' i True = Some y" by simp
    from 1(1) [OF this inv 1(4)] show ?thesis .
  next
    case False
    with 1(2) s inv show ?thesis by auto
  qed
qed

lemma linear_for_inv:
  "linear_for env st ls is d = Some y \<Longrightarrow> linear_inv sz K ls \<Longrightarrow> \<forall>i \<in> set is. i < sz \<Longrightarrow>
     linear_inv sz K (fst (snd y))"
proof (induction "is" arbitrary: st ls d)
  case Nil
  then show ?case by auto
next
  case (Cons i "is")
  from Cons.prems(1) obtain st' ls' d' where
    w: "linear_while env st ls i d = Some (st', ls', d')" and
    rest: "linear_for env st' ls' is d' = Some y"
    by (auto split: option.splits)
  have "linear_inv sz K ls'"
    using linear_while_inv [OF w Cons.prems(2)] Cons.prems(3) by simp
  from Cons.IH [OF rest this] Cons.prems(3) show ?case by simp
qed

lemma valid_rules_mem:
  assumes "i < length (acc ls)" and "length (valid ls) = length (acc ls)" and "valid ls ! i"
  shows "acc ls ! i \<in> set (valid_rules ls)"
proof -
  have "(acc ls ! i, valid ls ! i) \<in> set (zip (acc ls) (valid ls))"
    using assms(1,2) by (metis in_set_conv_nth length_zip min.idem nth_zip)
  with assms(3) have "(acc ls ! i, True) \<in> set (filter snd (zip (acc ls) (valid ls)))"
    by simp
  then show ?thesis
    unfolding valid_rules_def by (metis fst_conv image_eqI set_map)
qed

lemma add_rule_inv_output:
  assumes "linear_inv sz K ls" and "i < sz" and "valid ls ! i"
    and "is_output_predicate env (head_decl r)"
  shows "linear_inv sz (insert i K) (add_rule env st ls r i)"
proof -
  have a: "linear_inv sz K (add_rule env st ls r i)"
    using assms(1,2) by (rule add_rule_inv)
  have "\<not> can_remove (add_rule env st ls r i) ! i"
    using assms by (simp add: add_rule_def Let_def linear_inv_def get_head_def head_decl_def)
  moreover have "valid (add_rule env st ls r i) ! i"
    using assms(3) by (simp add: add_rule_def Let_def)
  ultimately show ?thesis
    using a assms(2) by (simp add: linear_inv_def)
qed

lemma linear_init_prefix_inv:
  assumes "n \<le> length rules"
  shows "acc (foldl (\<lambda>ls i. add_rule env st ls (acc ls ! i) i)
            \<lparr> head_positions = [], tail_positions = [],
               can_remove = replicate (length rules) True,
               can_expand = replicate (length rules) True,
               valid = replicate (length rules) True, acc = rules \<rparr> [0 ..< n]) = rules \<and>
         valid (foldl (\<lambda>ls i. add_rule env st ls (acc ls ! i) i)
            \<lparr> head_positions = [], tail_positions = [],
               can_remove = replicate (length rules) True,
               can_expand = replicate (length rules) True,
               valid = replicate (length rules) True, acc = rules \<rparr> [0 ..< n]) =
           replicate (length rules) True \<and>
         linear_inv (length rules)
           {i. i < n \<and> is_output_predicate env (head_decl (rules ! i))}
           (foldl (\<lambda>ls i. add_rule env st ls (acc ls ! i) i)
            \<lparr> head_positions = [], tail_positions = [],
               can_remove = replicate (length rules) True,
               can_expand = replicate (length rules) True,
               valid = replicate (length rules) True, acc = rules \<rparr> [0 ..< n])"
  using assms
proof (induction n)
  case 0
  then show ?case by (simp add: linear_inv_def)
next
  case (Suc n)
  let ?init = "\<lparr> head_positions = [], tail_positions = [],
               can_remove = replicate (length rules) True,
               can_expand = replicate (length rules) True,
               valid = replicate (length rules) True, acc = rules \<rparr>"
  let ?ls = "foldl (\<lambda>ls i. add_rule env st ls (acc ls ! i) i) ?init [0 ..< n]"
  let ?K = "{i. i < n \<and> is_output_predicate env (head_decl (rules ! i))}"
  from Suc have n: "n < length rules" and
    ih: "acc ?ls = rules" "valid ?ls = replicate (length rules) True"
        "linear_inv (length rules) ?K ?ls"
    by simp_all
  have step: "foldl (\<lambda>ls i. add_rule env st ls (acc ls ! i) i) ?init [0 ..< Suc n] =
              add_rule env st ?ls (rules ! n) n"
    using ih(1) by simp
  have v: "valid ?ls ! n" using ih(2) n by simp
  have inv: "linear_inv (length rules)
               {i. i < Suc n \<and> is_output_predicate env (head_decl (rules ! i))}
               (add_rule env st ?ls (rules ! n) n)"
  proof (cases "is_output_predicate env (head_decl (rules ! n))")
    case True
    then have "{i. i < Suc n \<and> is_output_predicate env (head_decl (rules ! i))} = insert n ?K"
      by (auto simp: less_Suc_eq)
    with add_rule_inv_output [OF ih(3) n v True] show ?thesis by simp
  next
    case False
    then have "{i. i < Suc n \<and> is_output_predicate env (head_decl (rules ! i))} = ?K"
      by (auto simp: less_Suc_eq)
    with add_rule_inv [OF ih(3) n] show ?thesis by simp
  qed
  show ?case
    unfolding step using ih(1,2) inv
    by (simp add: acc_add_rule valid_add_rule)
qed

lemma linear_init_inv:
  "linear_inv (length rules)
     {i. i < length rules \<and> is_output_predicate env (head_decl (rules ! i))}
     (linear_init env st rules)"
  using linear_init_prefix_inv [of "length rules" rules env st]
  by (simp add: linear_init_def Let_def)

lemma inline_linear_keeps_outputs:
  assumes "inline_linear env st rules = Some (st', res, d)"
  shows "\<exists>ls. res = valid_rules ls \<and> length (acc ls) = length rules \<and>
           length (valid ls) = length rules \<and>
           (\<forall>i < length rules. is_output_predicate env (head_decl (rules ! i)) \<longrightarrow>
              valid ls ! i \<and> acc ls ! i \<in> set res)"
proof -
  let ?K = "{i. i < length rules \<and> is_output_predicate env (head_decl (rules ! i))}"
  from assms obtain ls where
    f: "linear_for env st (linear_init env st rules) [0 ..< length rules] False = Some (st', ls, d)"
    and r: "res = valid_rules ls"
    by (auto simp: inline_linear_def split: option.splits)
  have inv: "linear_inv (length rules) ?K ls"
    using linear_for_inv [OF f linear_init_inv] by simp
  then have len: "length (acc ls) = length rules" "length (valid ls) = length rules"
    by (simp_all add: linear_inv_def)
  have "\<forall>i < length rules. is_output_predicate env (head_decl (rules ! i)) \<longrightarrow>
              valid ls ! i \<and> acc ls ! i \<in> set res"
  proof (intro allI impI)
    fix i assume i: "i < length rules" and o: "is_output_predicate env (head_decl (rules ! i))"
    then have v: "valid ls ! i" using inv by (simp add: linear_inv_def)
    with valid_rules_mem [of i ls] i len r show "valid ls ! i \<and> acc ls ! i \<in> set res"
      by simp
  qed
  with r len show ?thesis by blast
qed

section \<open>Termination\<close>

subsection \<open>The worklist of \<open>transform_rule\<close>\<close>

text \<open>
  A rule of the inlined rule set has no admissible positive tail atom, so a resolvent with
  it has fewer admissible positive tail atoms than the popped rule: the multiset of these
  numbers over the worklist decreases at every round.
\<close>

lemma try_to_inline_rule_resolvent:
  "fst (snd (try_to_inline_rule env st tgt src i)) = resolvent env tgt src i"
  by (simp add: try_to_inline_rule_def resolvent_def Let_def split: option.splits)

lemma admissible_tails_mset:
  "admissible_tails env st r =
     size (filter_mset (inlining_allowed env st) (mset (map fst (r_pos r))))"
proof -
  have "length (filter (\<lambda>a. P (fst a)) xs) = size (filter_mset P (mset (map fst xs)))"
    for P :: "func_decl \<Rightarrow> bool" and xs :: "app list"
    by (induction xs) auto
  then show ?thesis by (simp add: admissible_tails_def)
qed

lemma admissible_tails_same_plan:
  "same_plan st st' \<Longrightarrow> admissible_tails env st' r = admissible_tails env st r"
  by (simp add: admissible_tails_def inlining_allowed_same_plan)

lemma admissible_tails_norm_vars:
  assumes "resolution_contract env W" and "r \<in> W"
  shows "admissible_tails env st (norm_vars env r) = admissible_tails env st r"
  using assms by (simp add: admissible_tails_mset resolution_contract_def)

lemma admissible_tails_zero:
  "(admissible_tails env st r = 0) = (\<forall>a \<in> set (r_pos r). \<not> inlining_allowed env st (fst a))"
  by (auto simp: admissible_tails_def filter_empty_conv)

lemma resolvent_fewer_admissible_tails:
  assumes c: "resolution_contract env W" and "tgt \<in> W" and "src \<in> W"
    and i: "i < length (r_pos tgt)" and a: "inlining_allowed env st (fst (r_pos tgt ! i))"
    and z: "admissible_tails env st src = 0"
    and r: "resolvent env tgt src i = Some res"
  shows "res \<in> W \<and> admissible_tails env st res < admissible_tails env st tgt"
proof -
  let ?A = "inlining_allowed env st"
  let ?Pt = "mset (map fst (r_pos tgt))"
  let ?Ps = "mset (map fst (r_pos src))"
  let ?p = "fst (r_pos tgt ! i)"
  from c assms(2,3) i r have w: "res \<in> W"
    and sub: "mset (map fst (r_pos res)) \<subseteq># (?Pt - {#?p#}) + ?Ps"
    unfolding resolution_contract_def by blast+
  have "?p \<in> set (map fst (r_pos tgt))"
    using i by (metis length_map nth_map nth_mem)
  then have mem: "?p \<in># filter_mset ?A ?Pt" using a by simp
  have "filter_mset ?A (?Pt - {#?p#}) = filter_mset ?A ?Pt - {#?p#}"
    using a by simp
  then have d: "size (filter_mset ?A (?Pt - {#?p#})) = size (filter_mset ?A ?Pt) - 1"
    using mem by (simp add: size_Diff_singleton)
  have pos: "0 < size (filter_mset ?A ?Pt)"
    using mem by (metis empty_iff gr0I set_mset_empty size_eq_0_iff_empty)
  have "size (filter_mset ?A (mset (map fst (r_pos res)))) \<le>
          size (filter_mset ?A ((?Pt - {#?p#}) + ?Ps))"
    using sub by (intro size_mset_mono multiset_filter_mono)
  also have "\<dots> = size (filter_mset ?A (?Pt - {#?p#})) + size (filter_mset ?A ?Ps)"
    by simp
  also have "\<dots> = size (filter_mset ?A ?Pt) - 1"
    using d z by (simp add: admissible_tails_mset)
  finally have "admissible_tails env st res \<le> admissible_tails env st tgt - 1"
    by (simp add: admissible_tails_mset)
  moreover have "0 < admissible_tails env st tgt"
    using pos by (simp add: admissible_tails_mset)
  ultimately show ?thesis using w by linarith
qed


lemma contract_norm_vars:
  "resolution_contract env W \<Longrightarrow> r \<in> W \<Longrightarrow>
     norm_vars env r \<in> W \<and> map fst (r_pos (norm_vars env r)) = map fst (r_pos r)"
  unfolding resolution_contract_def by blast

lemma inline_rules_results:
  assumes c: "resolution_contract env W"
  shows "inline_rules env st r prs i = (r', results, st') \<Longrightarrow> r \<in> W \<Longrightarrow>
     \<forall>s \<in> set prs. s \<in> W \<and> admissible_tails env st s = 0 \<Longrightarrow>
     i < length (r_pos r) \<Longrightarrow> inlining_allowed env st (fst (r_pos r ! i)) \<Longrightarrow>
     same_plan st st' \<and>
     (\<forall>x \<in> set results. x \<in> W \<and> admissible_tails env st x < admissible_tails env st r)"
proof (induction prs arbitrary: st r r' results st')
  case Nil
  then show ?case by simp
next
  case (Cons s prs)
  obtain r1 x st1 where t: "try_to_inline_rule env st r s i = (r1, x, st1)"
    by (cases "try_to_inline_rule env st r s i") auto
  obtain r2 xs st2 where l: "inline_rules env st1 r1 prs i = (r2, xs, st2)"
    by (cases "inline_rules env st1 r1 prs i") auto
  have r1: "r1 = norm_vars env r"
    using try_to_inline_rule_fst [of env st r s i] t by simp
  have x: "x = resolvent env r s i"
    using try_to_inline_rule_resolvent [of env st r s i] t by simp
  have sp: "same_plan st st1"
    using try_to_inline_rule_state [OF t] by simp
  have w1: "r1 \<in> W" and p1: "map fst (r_pos r1) = map fst (r_pos r)"
    unfolding r1 using contract_norm_vars [OF c Cons.prems(2)] by blast+
  have len: "length (r_pos r1) = length (r_pos r)"
    using arg_cong [OF p1, of length] by simp
  have "map fst (r_pos r1) ! i = map fst (r_pos r) ! i"
    using p1 by simp
  then have at: "fst (r_pos r1 ! i) = fst (r_pos r ! i)"
    using Cons.prems(4) len by simp
  have a1: "admissible_tails env st r1 = admissible_tails env st r"
    unfolding r1 using c Cons.prems(2) by (rule admissible_tails_norm_vars)
  have "same_plan st1 st2 \<and>
     (\<forall>x \<in> set xs. x \<in> W \<and> admissible_tails env st1 x < admissible_tails env st1 r1)"
  proof (rule Cons.IH [OF l w1])
    show "\<forall>s \<in> set prs. s \<in> W \<and> admissible_tails env st1 s = 0"
      using Cons.prems(3) by (simp add: admissible_tails_same_plan [OF sp])
    show "i < length (r_pos r1)" using Cons.prems(4) len by simp
    show "inlining_allowed env st1 (fst (r_pos r1 ! i))"
      using Cons.prems(5) at by (simp add: inlining_allowed_same_plan [OF sp])
  qed
  then have sp2: "same_plan st1 st2"
    and rest: "\<forall>x \<in> set xs. x \<in> W \<and> admissible_tails env st x < admissible_tails env st r"
    using a1 by (simp_all add: admissible_tails_same_plan [OF sp])
  have first: "y \<in> W \<and> admissible_tails env st y < admissible_tails env st r" if "x = Some y" for y
  proof (rule resolvent_fewer_admissible_tails [OF c Cons.prems(2) _ Cons.prems(4,5)])
    show "s \<in> W" using Cons.prems(3) by simp
    show "admissible_tails env st s = 0" using Cons.prems(3) by simp
    show "resolvent env r s i = Some y" using x that by simp
  qed
  from Cons.prems(1) t l have res: "results = (case x of None \<Rightarrow> xs | Some y \<Rightarrow> y # xs)"
    and st': "st' = st2"
    by simp_all
  have "\<forall>y \<in> set results. y \<in> W \<and> admissible_tails env st y < admissible_tails env st r"
  proof (cases x)
    case None
    with res rest show ?thesis by simp
  next
    case (Some y)
    with res rest first [OF Some] show ?thesis by simp
  qed
  with same_plan_trans [OF sp sp2] st' show ?case by simp
qed


lemma worklist_decreases:
  assumes "\<forall>x \<in> set results. f x < (f r :: nat)"
  shows "(mset (map f (rev results @ todo)), mset (map f (r # todo))) \<in> mult less_than"
proof -
  have "(mset (map f todo) + mset (map f results), mset (map f todo) + {#f r#}) \<in> mult less_than"
    using assms by (intro one_step_implies_mult) auto
  then show ?thesis by (simp add: ac_simps)
qed

lemma first_allowed_index_le:
  "first_allowed_index env st r \<le> get_positive_tail_size r"
  by (simp add: first_allowed_index_def get_positive_tail_size_def length_takeWhile_le)

lemma transform_rule_loop_returns:
  assumes c: "resolution_contract env W"
  shows "set todo \<subseteq> W \<Longrightarrow> set tgt \<subseteq> W \<Longrightarrow>
     \<forall>s \<in> set (if al then tgt else m_inlined_rules st). s \<in> W \<and> admissible_tails env st s = 0 \<Longrightarrow>
     \<exists>st' tgt' m'. transform_rule_loop env al st tgt todo m = Some (st', tgt', m') \<and>
        set tgt' \<subseteq> W \<and> (al \<longrightarrow> (\<forall>s \<in> set tgt'. admissible_tails env st s = 0))"
proof (induction "mset (map (admissible_tails env st) todo)" arbitrary: st tgt todo m
    rule: wf_induct_rule [OF wf_mult [OF wf_less_than], case_names less])
  case less
  show ?case
  proof (cases todo)
    case Nil
    with less.prems show ?thesis by (subst transform_rule_loop.simps) simp
  next
    case (Cons r todo')
    let ?i = "first_allowed_index env st r"
    have rW: "r \<in> W" and tW: "set todo' \<subseteq> W"
      using less.prems(1) Cons by simp_all
    have drop: "(mset (map (admissible_tails env st) todo'),
                 mset (map (admissible_tails env st) todo)) \<in> mult less_than"
      using worklist_decreases [of "[]" "admissible_tails env st" r todo'] Cons by simp
    show ?thesis
    proof (cases "has_quantifier r")
      case True
      have "\<exists>st' tgt' m'. transform_rule_loop env al st tgt todo' m = Some (st', tgt', m') \<and>
              set tgt' \<subseteq> W \<and> (al \<longrightarrow> (\<forall>s \<in> set tgt'. admissible_tails env st s = 0))"
        using drop tW less.prems(2,3) by (rule less.hyps)
      with True Cons show ?thesis by (subst transform_rule_loop.simps) simp
    next
      case nq: False
      show ?thesis
      proof (cases "?i = get_positive_tail_size r")
        case True
        then have z: "admissible_tails env st r = 0"
          by (simp add: first_allowed_index_none admissible_tails_zero)
        have "\<exists>st' tgt' m'.
                transform_rule_loop env al st (tgt @ [r]) todo' m = Some (st', tgt', m') \<and>
                set tgt' \<subseteq> W \<and> (al \<longrightarrow> (\<forall>s \<in> set tgt'. admissible_tails env st s = 0))"
        proof (rule less.hyps [OF drop tW])
          show "set (tgt @ [r]) \<subseteq> W" using less.prems(2) rW by simp
          show "\<forall>s \<in> set (if al then tgt @ [r] else m_inlined_rules st).
                  s \<in> W \<and> admissible_tails env st s = 0"
            using less.prems(3) rW z by auto
        qed
        with True nq Cons show ?thesis by (subst transform_rule_loop.simps) simp
      next
        case False
        with first_allowed_index_le [of env st r]
        have lt: "?i < get_positive_tail_size r" by simp
        then have i: "?i < length (r_pos r)" by (simp add: get_positive_tail_size_def)
        have decl: "get_decl r ?i = fst (r_pos r ! ?i)"
          using i by (simp add: get_decl_def get_tail_def nth_append)
        have a: "inlining_allowed env st (fst (r_pos r ! ?i))"
          using first_allowed_index_allowed [OF lt] decl by simp
        let ?look = "if al then tgt else m_inlined_rules st"
        let ?prs = "get_predicate_rules ?look (get_decl r ?i)"
        obtain r' results st' where l: "inline_rules env st r ?prs ?i = (r', results, st')"
          by (cases "inline_rules env st r ?prs ?i") auto
        have prs: "\<forall>s \<in> set ?prs. s \<in> W \<and> admissible_tails env st s = 0"
          using less.prems(3) by (simp add: get_predicate_rules_def)
        have sp: "same_plan st st'"
          and fewer: "\<forall>x \<in> set results. x \<in> W \<and>
                        admissible_tails env st x < admissible_tails env st r"
          using inline_rules_results [OF c l rW prs i a] by simp_all
        have same: "admissible_tails env st' = admissible_tails env st"
          by (intro ext) (rule admissible_tails_same_plan [OF sp])
        have inl: "m_inlined_rules st' = m_inlined_rules st"
          using inline_rules_state [OF l] by simp
        have dec: "(mset (map (admissible_tails env st') (rev results @ todo')),
                    mset (map (admissible_tails env st) todo)) \<in> mult less_than"
          unfolding same Cons using fewer by (intro worklist_decreases) simp
        have "\<exists>st'' tgt' m'.
                transform_rule_loop env al st' tgt (rev results @ todo') True = Some (st'', tgt', m') \<and>
                set tgt' \<subseteq> W \<and> (al \<longrightarrow> (\<forall>s \<in> set tgt'. admissible_tails env st' s = 0))"
        proof (rule less.hyps [OF dec _ less.prems(2)])
          show "set (rev results @ todo') \<subseteq> W" using fewer tW by auto
          show "\<forall>s \<in> set (if al then tgt else m_inlined_rules st').
                  s \<in> W \<and> admissible_tails env st' s = 0"
            using less.prems(3) by (simp add: same inl)
        qed
        with False nq Cons l show ?thesis
          unfolding same by (subst transform_rule_loop.simps) (simp add: Let_def)
      qed
    qed
  qed
qed

subsection \<open>The eager inliner\<close>

text \<open>
  An oriented rewriter of a stratified rule set replaces a tail predicate by lower ones in
  the ordering on stratum, arity and id: the multiset of positive tail predicates of the
  rule decreases at every round of \<open>while (r && do_eager_inlining(...))\<close>.
\<close>

lemma wf_spec_lex_lower: "wf {(q, p). spec_lex_lower strat q p}"
proof -
  have "{(q, p). spec_lex_lower strat q p} =
          inv_image (less_than <*lex*> less_than <*lex*> less_than)
            (\<lambda>p. (get_predicate_strat strat p, get_arity p, get_id p))"
    by (auto simp: spec_lex_lower_def inv_image_def)
  then show ?thesis by (simp add: wf_lex_prod)
qed

lemma mult_resolve:
  assumes "A \<subseteq># (M - {#p#}) + K" and "p \<in># M" and "\<forall>k \<in># K. (k, p) \<in> R"
  shows "(A, M) \<in> mult R"
proof -
  let ?M0 = "M - {#p#}"
  let ?I = "A \<inter># ?M0"
  let ?K = "A - ?M0"
  let ?J = "(?M0 - ?I) + {#p#}"
  have k: "?K \<subseteq># K"
    using assms(1) by (simp add: add.commute subset_eq_diff_conv)
  have a: "A = ?I + ?K"
    by (simp add: inter_mset_def)
  have "?I + (?M0 - ?I) = ?M0"
    by (rule subset_mset.add_diff_inverse) (rule subset_mset.inf.cobounded2)
  then have "?I + ?J = ?M0 + {#p#}"
    by (simp only: add.assoc [symmetric])
  then have m: "M = ?I + ?J"
    using assms(2) by simp
  have "(?I + ?K, ?I + ?J) \<in> mult R"
  proof (rule one_step_implies_mult)
    show "?J \<noteq> {#}" by simp
    show "\<forall>k \<in> set_mset ?K. \<exists>j \<in> set_mset ?J. (k, j) \<in> R"
      using k assms(3) by (auto dest: mset_subset_eqD)
  qed
  with a m show ?thesis by simp
qed


lemma eager_step_decreases:
  assumes c: "resolution_contract env W"
    and s: "\<forall>s \<in> set (rs_rules rules). s \<in> W \<and> stratified_rule (get_stratifier rules) s"
    and r: "r \<in> W"
    and e: "do_eager_inlining_rule env st r rules = (True, Some res, st')"
  shows "res \<in> W \<and>
         (mset (map fst (r_pos res)), mset (map fst (r_pos r))) \<in>
           mult {(q, p). spec_lex_lower (get_stratifier rules) q p}"
proof -
  from e have "eager_tails env st r rules [0 ..< get_positive_tail_size r] = (True, Some res, st')"
    by (simp add: do_eager_inlining_rule_def)
  from eager_tails_inlined [OF this] obtain ti cand where
    ti: "ti < length (r_pos r)"
    and cand: "cand \<in> set (get_predicate_rules (rs_rules rules) (get_decl r ti))"
    and o: "is_oriented_rewriter cand (get_stratifier rules)"
    and t: "try_to_inline_rule env st r cand ti = (norm_vars env r, Some res, st')"
    by (auto simp: get_positive_tail_size_def)
  let ?p = "fst (r_pos r ! ti)"
  have decl: "get_decl r ti = ?p"
    using ti by (simp add: get_decl_def get_tail_def nth_append)
  from cand decl have cm: "cand \<in> set (rs_rules rules)" and ch: "head_decl cand = ?p"
    by (simp_all add: get_predicate_rules_def)
  from s cm have cW: "cand \<in> W" and cs: "stratified_rule (get_stratifier rules) cand"
    by simp_all
  have res: "resolvent env r cand ti = Some res"
    using try_to_inline_rule_resolvent [of env st r cand ti] t by simp
  from c r cW ti res have w: "res \<in> W"
    and sub: "mset (map fst (r_pos res)) \<subseteq>#
                (mset (map fst (r_pos r)) - {#?p#}) + mset (map fst (r_pos cand))"
    unfolding resolution_contract_def by blast+
  have mem: "?p \<in># mset (map fst (r_pos r))"
    using ti by simp
  have low: "\<forall>k \<in># mset (map fst (r_pos cand)).
               (k, ?p) \<in> {(q, p). spec_lex_lower (get_stratifier rules) q p}"
    using o ch by (auto simp: is_oriented_rewriter_iff [OF cs])
  from mult_resolve [OF sub mem low] w show ?thesis by simp
qed

lemma eager_while_returns:
  assumes c: "resolution_contract env W"
    and s: "\<forall>s \<in> set (rs_rules rules). s \<in> W \<and> stratified_rule (get_stratifier rules) s"
  shows "r \<in> W \<Longrightarrow> \<exists>y. eager_while env st rules (Some r) d = Some y"
proof (induction "mset (map fst (r_pos r))" arbitrary: st r d
    rule: wf_induct_rule [OF wf_mult [OF wf_spec_lex_lower [of "get_stratifier rules"]],
      case_names less])
  case less
  obtain ch rep st' where e: "do_eager_inlining_rule env st r rules = (ch, rep, st')"
    by (cases "do_eager_inlining_rule env st r rules") auto
  show ?case
  proof (cases ch)
    case False
    with e show ?thesis by (subst eager_while.simps) simp
  next
    case True
    show ?thesis
    proof (cases rep)
      case None
      have "eager_while env st' rules None True = Some (st', None, True)"
        by (subst eager_while.simps) simp
      with e True None show ?thesis by (subst eager_while.simps) auto
    next
      case (Some res)
      from eager_step_decreases [OF c s less.prems] e True Some
      have "res \<in> W" and "(mset (map fst (r_pos res)), mset (map fst (r_pos r))) \<in>
              mult {(q, p). spec_lex_lower (get_stratifier rules) q p}"
        by simp_all
      then have "\<exists>y. eager_while env st' rules (Some res) True = Some y"
        using less.hyps by blast
      with e True Some show ?thesis by (subst eager_while.simps) simp
    qed
  qed
qed

lemma eager_rules_returns:
  assumes c: "resolution_contract env W"
    and s: "\<forall>s \<in> set (rs_rules rules). s \<in> W \<and> stratified_rule (get_stratifier rules) s"
  shows "set rs \<subseteq> W \<Longrightarrow> \<exists>y. eager_rules env st rules rs res d = Some y"
proof (induction rs arbitrary: st res d)
  case Nil
  then show ?case by simp
next
  case (Cons r rs)
  then have "r \<in> W" by simp
  from eager_while_returns [OF c s this, of st d]
  obtain st' r' d' where w: "eager_while env st rules (Some r) d = Some (st', r', d')"
    by auto
  from Cons have "\<exists>y. eager_rules env st' rules rs
                     (case r' of None \<Rightarrow> res | Some x \<Rightarrow> res @ [x]) d' = Some y"
    by simp
  with w show ?case by simp
qed

lemma do_eager_inlining_returns:
  assumes c: "resolution_contract env W"
    and s: "\<forall>s \<in> set (rs_rules rules). s \<in> W \<and> stratified_rule (get_stratifier rules) s"
  shows "\<exists>y. do_eager_inlining env st rules = Some y"
proof -
  from s have "set (rs_rules rules) \<subseteq> W" by auto
  from eager_rules_returns [OF c s this, of st "[]" False]
  obtain y where "eager_rules env st rules (rs_rules rules) [] False = Some y" by auto
  then show ?thesis by (cases y) (simp add: do_eager_inlining_def)
qed

subsection \<open>Planning\<close>

text \<open>
  Every round of \<open>while (forbid_preds_from_cycles(...))\<close> that goes on forbids the head
  predicate of a candidate rule, which was not forbidden before.
\<close>

lemma filter_in_subseqs: "filter P xs \<in> set (subseqs xs)"
  by (induction xs) (auto simp: Let_def)

lemma forbid_strata_forbidden:
  "forbid_strata st comps sf = (st', f) \<Longrightarrow>
     m_forbidden_preds st' = m_forbidden_preds st \<union> fst ` {c \<in> set comps. stratum_size c \<noteq> 1} \<and>
     f = (sf \<or> (\<exists>c \<in> set comps. stratum_size c \<noteq> 1)) \<and>
     (\<forall>p. inlining_allowed env st' p \<longrightarrow> inlining_allowed env st p)"
proof (induction comps arbitrary: st sf)
  case Nil
  then show ?case by simp
next
  case (Cons c comps)
  show ?case
  proof (cases "stratum_size c = 1")
    case True
    with Cons.prems have "forbid_strata st comps sf = (st', f)" by simp
    from Cons.IH [OF this] True show ?thesis by auto
  next
    case False
    let ?st = "st\<lparr>m_forbidden_preds := insert (fst c) (m_forbidden_preds st)\<rparr>"
    from Cons.prems False have "forbid_strata ?st comps True = (st', f)" by simp
    from Cons.IH [OF this] False show ?thesis
      by (auto simp: inlining_allowed_def split: if_splits)
  qed
qed

lemma forbid_cycles_loop_returns:
  assumes "cycle_contract env orig"
  shows "\<exists>y. forbid_cycles_loop env st orig (create_allowed_rule_set env st orig) = Some y"
proof (induction "card (head_decl ` set orig - m_forbidden_preds st)" arbitrary: st
    rule: less_induct)
  case less
  let ?rs = "filter (\<lambda>r. inlining_allowed env st (head_decl r)) orig"
  let ?cand = "create_allowed_rule_set env st orig"
  obtain st' f where fp: "forbid_preds_from_cycles st ?cand = (st', f)"
    by (cases "forbid_preds_from_cycles st ?cand") auto
  then have fs: "forbid_strata st (get_strats (stratify env ?rs)) False = (st', f)"
    by (simp add: forbid_preds_from_cycles_def create_allowed_rule_set_def close_rules_def)
  note fb = forbid_strata_forbidden [OF fs, of env]
  show ?case
  proof (cases f)
    case False
    with fp show ?thesis by (subst forbid_cycles_loop.simps) simp
  next
    case True
    with fb obtain c where c: "c \<in> set (get_strats (stratify env ?rs))" "stratum_size c \<noteq> 1"
      by auto
    have "fst c \<in> head_decl ` set ?rs"
      using assms c filter_in_subseqs [of "\<lambda>r. inlining_allowed env st (head_decl r)" orig]
      unfolding cycle_contract_def by blast
    then have h: "fst c \<in> head_decl ` set orig" and a: "inlining_allowed env st (fst c)"
      by auto
    from a have nf: "fst c \<notin> m_forbidden_preds st"
      by (simp add: inlining_allowed_def split: if_splits)
    have inf: "fst c \<in> m_forbidden_preds st'" and mono: "m_forbidden_preds st \<subseteq> m_forbidden_preds st'"
      using fb c by auto
    have "head_decl ` set orig - m_forbidden_preds st' \<subset> head_decl ` set orig - m_forbidden_preds st"
      using h nf inf mono by auto
    then have "card (head_decl ` set orig - m_forbidden_preds st') <
               card (head_decl ` set orig - m_forbidden_preds st)"
      by (intro psubset_card_mono) simp_all
    then have "\<exists>y. forbid_cycles_loop env st' orig (create_allowed_rule_set env st' orig) = Some y"
      by (rule less.hyps)
    with fp True show ?thesis by (subst forbid_cycles_loop.simps) simp
  qed
qed


lemma forbid_cycles_loop_candidate:
  assumes "forbid_cycles_loop env st orig candidate = Some y"
    and "set (rs_rules candidate) \<subseteq> set orig"
  shows "set (rs_rules (snd y)) \<subseteq> set orig"
  using assms
proof (induct rule: forbid_cycles_loop.raw_induct [rotated, consumes 1])
  case (1 loop env st orig candidate y)
  obtain st1 b where f: "forbid_preds_from_cycles st candidate = (st1, b)"
    by (cases "forbid_preds_from_cycles st candidate") auto
  show ?case
  proof (cases b)
    case True
    with 1(2) f have "loop env st1 orig (create_allowed_rule_set env st1 orig) = Some y"
      by simp
    moreover have "set (rs_rules (create_allowed_rule_set env st1 orig)) \<subseteq> set orig"
      by (auto simp: create_allowed_rule_set_def close_rules_def)
    ultimately show ?thesis by (rule 1(1))
  next
    case False
    with 1(2,3) f show ?thesis by auto
  qed
qed

lemma inlined_resolved_same_plan:
  assumes "same_plan st st'" and "m_inlined_rules st' = m_inlined_rules st"
  shows "inlined_resolved env W st' = inlined_resolved env W st"
  using assms by (simp add: inlined_resolved_def admissible_tails_same_plan)

lemma plan_pred_rules_returns:
  assumes c: "resolution_contract env W"
  shows "set rs \<subseteq> W \<Longrightarrow> inlined_resolved env W st \<Longrightarrow>
     \<exists>st'. plan_pred_rules env st rs = Some st' \<and> inlined_resolved env W st'"
proof (induction rs arbitrary: st)
  case Nil
  then show ?case by simp
next
  case (Cons r rs)
  have "\<exists>st1 tgt1 m1.
          transform_rule_loop env True st (m_inlined_rules st) [r] False = Some (st1, tgt1, m1) \<and>
          set tgt1 \<subseteq> W \<and> (True \<longrightarrow> (\<forall>s \<in> set tgt1. admissible_tails env st s = 0))"
    using Cons.prems
    by (intro transform_rule_loop_returns [OF c]) (auto simp: inlined_resolved_def)
  then obtain st1 tgt1 m1 where
    t: "transform_rule_loop env True st (m_inlined_rules st) [r] False = Some (st1, tgt1, m1)"
    and w: "set tgt1 \<subseteq> W" and z: "\<forall>s \<in> set tgt1. admissible_tails env st s = 0"
    by blast
  have sp: "same_plan st st1"
    using transform_rule_loop_state [OF t] by simp
  then have "same_plan st (st1\<lparr>m_inlined_rules := tgt1\<rparr>)"
    by (simp add: same_plan_def)
  then have "inlined_resolved env W (st1\<lparr>m_inlined_rules := tgt1\<rparr>)"
    using w z by (auto simp: inlined_resolved_def admissible_tails_same_plan)
  with Cons.prems(1)
  have "\<exists>st'. plan_pred_rules env (st1\<lparr>m_inlined_rules := tgt1\<rparr>) rs = Some st' \<and>
              inlined_resolved env W st'"
    by (intro Cons.IH) simp_all
  with t show ?case by (simp add: transform_rule_def)
qed

lemma plan_strata_returns:
  assumes c: "resolution_contract env W" and r: "set (rs_rules candidate) \<subseteq> W"
  shows "inlined_resolved env W st \<Longrightarrow>
     \<exists>st'. plan_strata env st candidate comps = Some st' \<and> inlined_resolved env W st'"
proof (induction comps arbitrary: st)
  case Nil
  then show ?case by simp
next
  case (Cons stratum comps)
  have "set (get_predicate_rules (rs_rules candidate) (fst stratum)) \<subseteq> W"
    using r by (auto simp: get_predicate_rules_def)
  from plan_pred_rules_returns [OF c this Cons.prems]
  obtain st1 where
    p: "plan_pred_rules env st (get_predicate_rules (rs_rules candidate) (fst stratum)) = Some st1"
    and i: "inlined_resolved env W st1"
    by blast
  from Cons.IH [OF i] p show ?case by simp
qed

lemma m_inlined_rules_count_pred_occurrences:
  "m_inlined_rules (count_pred_occurrences env st orig) = m_inlined_rules st"
proof -
  have t: "m_inlined_rules (foldl count_tail_atom s ts) = m_inlined_rules s" for s ts
    by (induction ts arbitrary: s) (simp_all add: count_tail_atom_def Let_def)
  have r: "m_inlined_rules (count_rule s x) = m_inlined_rules s" for s x
    by (simp add: count_rule_def Let_def t)
  have "m_inlined_rules (foldl count_rule s rs) = m_inlined_rules s" for s rs
    by (induction rs arbitrary: s) (simp_all add: r)
  then show ?thesis by (simp add: count_pred_occurrences_def)
qed

lemma plan_inlining_returns:
  assumes c: "resolution_contract env W" and cc: "cycle_contract env orig"
    and o: "set orig \<subseteq> W" and e: "m_inlined_rules st0 = []"
  shows "\<exists>st1. plan_inlining env st0 orig = Some st1 \<and> inlined_resolved env W st1"
proof -
  let ?c = "count_pred_occurrences env st0 orig"
  obtain st2 cand where
    f: "forbid_cycles_loop env ?c orig (create_allowed_rule_set env ?c orig) = Some (st2, cand)"
    using forbid_cycles_loop_returns [OF cc, of ?c] by auto
  obtain st3 b where m: "forbid_multiple_multipliers env st2 orig cand = (st3, b)"
    by (cases "forbid_multiple_multipliers env st2 orig cand") auto
  let ?cand = "if b then create_allowed_rule_set env st3 orig else cand"
  have "set (rs_rules (create_allowed_rule_set env ?c orig)) \<subseteq> set orig"
    by (auto simp: create_allowed_rule_set_def close_rules_def)
  from forbid_cycles_loop_candidate [OF f this] have "set (rs_rules cand) \<subseteq> set orig"
    by simp
  moreover have "set (rs_rules (create_allowed_rule_set env st3 orig)) \<subseteq> set orig"
    by (auto simp: create_allowed_rule_set_def close_rules_def)
  ultimately have cw: "set (rs_rules ?cand) \<subseteq> W"
    using o by auto
  have "same_log ?c st2"
    using forbid_cycles_loop_log [OF f] by simp
  moreover have "same_log st2 st3"
    using forbid_multiple_multipliers_log [of st2 env orig cand] m by simp
  ultimately have "m_inlined_rules st3 = []"
    using e by (simp add: same_log_def m_inlined_rules_count_pred_occurrences)
  then have "inlined_resolved env W st3"
    by (simp add: inlined_resolved_def)
  from plan_strata_returns [OF c cw this, of "get_strats (get_stratifier ?cand)"]
  obtain st1 where "plan_strata env st3 ?cand (get_strats (get_stratifier ?cand)) = Some st1"
    and "inlined_resolved env W st1"
    by blast
  with f m show ?thesis by (simp add: plan_inlining_def Let_def)
qed

lemma transform_rules_returns:
  assumes c: "resolution_contract env W"
  shows "set orig \<subseteq> W \<Longrightarrow> set tgt \<subseteq> W \<Longrightarrow> inlined_resolved env W st \<Longrightarrow>
     \<exists>st' tgt' d'. transform_rules env st orig tgt d = Some (st', tgt', d') \<and> set tgt' \<subseteq> W"
proof (induction orig arbitrary: st tgt d)
  case Nil
  then show ?case by simp
next
  case (Cons r orig)
  show ?case
  proof (cases "inlining_allowed env st (head_decl r)")
    case True
    with Cons show ?thesis by simp
  next
    case False
    have "\<exists>st1 tgt1 m1.
            transform_rule_loop env False st tgt [r] False = Some (st1, tgt1, m1) \<and>
            set tgt1 \<subseteq> W \<and> (False \<longrightarrow> (\<forall>s \<in> set tgt1. admissible_tails env st s = 0))"
      using Cons.prems
      by (intro transform_rule_loop_returns [OF c]) (auto simp: inlined_resolved_def)
    then obtain st1 tgt1 m1 where
      t: "transform_rule_loop env False st tgt [r] False = Some (st1, tgt1, m1)"
      and w: "set tgt1 \<subseteq> W"
      by blast
    have "same_plan st st1" and "m_inlined_rules st1 = m_inlined_rules st"
      using transform_rule_loop_state [OF t] by simp_all
    then have "inlined_resolved env W st1"
      using Cons.prems(3) by (simp add: inlined_resolved_same_plan)
    with Cons.prems(1) w
    have "\<exists>st' tgt' d'. transform_rules env st1 orig tgt1 (d \<or> m1) = Some (st', tgt', d') \<and>
            set tgt' \<subseteq> W"
      by (intro Cons.IH) simp_all
    with False t show ?thesis by (simp add: transform_rule_def)
  qed
qed

subsection \<open>The linear inliner without branching\<close>

text \<open>
  Without \<open>:inline-linear-branch\<close> a round that does not break invalidates the rule
  at position \<open>j\<close>, which was valid: the number of valid positions bounds the rounds.
\<close>

lemma valid_count_update:
  assumes "j < length xs" and "xs ! j"
  shows "length (filter id (xs[j := False])) < length (filter id xs)"
  using assms
proof (induction xs arbitrary: j)
  case Nil
  then show ?case by simp
next
  case (Cons x xs)
  then show ?case by (cases j) auto
qed

lemma index_unify_bound:
  assumes "\<forall>kv \<in> set m. \<forall>p \<in> set (snd kv). p < sz"
  shows "\<forall>p \<in> set (index_unify env m e). p < sz"
  using assms by (auto simp: index_unify_def)

lemma valid_linear_inlined:
  "valid (linear_inlined env st ls i r' res) = valid ls"
  by (simp add: linear_inlined_def add_rule_def del_rule_def Let_def)

lemma valid_del_rule_eq:
  "valid (del_rule ls r j) = valid ls"
  by (simp add: del_rule_def)

lemma linear_step_decreases:
  assumes "\<not> inline_linear_branch env" and "linear_inv sz K ls"
    and "linear_step env st ls i = (True, st', ls')"
  shows "length (filter id (valid ls')) < length (filter id (valid ls))"
proof (cases "linear_break env ls i")
  case True
  with assms(3) show ?thesis by (simp add: linear_step_break)
next
  case False
  let ?hu = "index_unify env (head_positions ls) (get_tail (acc ls ! i) 0)"
  let ?j = "?hu ! 0"
  from False have one: "length ?hu = 1" and v: "valid ls ! ?j"
    and k: "length (index_unify env (tail_positions ls) (get_head (acc ls ! ?j))) = 1"
    using assms(1) by (auto simp: linear_break_def Let_def)
  from one have "?j \<in> set ?hu" by (cases ?hu) auto
  moreover have "\<forall>p \<in> set ?hu. p < sz"
    using assms(2) by (intro index_unify_bound) (simp add: linear_inv_def)
  ultimately have j: "?j < length (valid ls)"
    using assms(2) by (simp add: linear_inv_def)
  obtain r' x s where t: "try_to_inline_rule env st (acc ls ! i) (acc ls ! ?j) 0 = (r', x, s)"
    by (cases "try_to_inline_rule env st (acc ls ! i) (acc ls ! ?j) 0") auto
  show ?thesis
  proof (cases x)
    case None
    with False t assms(3) show ?thesis by (simp add: linear_step_go Let_def)
  next
    case (Some res)
    with False t k assms(3)
    have "valid ls' = (valid ls)[?j := False]"
      by (auto simp: linear_step_go Let_def valid_del_rule_eq valid_linear_inlined)
    with j v show ?thesis by (simp add: valid_count_update)
  qed
qed

lemma linear_while_returns:
  assumes "\<not> inline_linear_branch env" and "linear_inv sz K ls" and "i < sz"
  shows "\<exists>y. linear_while env st ls i d = Some y"
  using assms(2)
proof (induction "length (filter id (valid ls))" arbitrary: st ls d rule: less_induct)
  case less
  obtain c st' ls' where s: "linear_step env st ls i = (c, st', ls')"
    by (cases "linear_step env st ls i") auto
  show ?case
  proof (cases c)
    case True
    have "length (filter id (valid ls')) < length (filter id (valid ls))"
      using assms(1) less.prems s True by (auto intro: linear_step_decreases)
    moreover have "linear_inv sz K ls'"
      using linear_step_inv [OF less.prems assms(3), of env st] s by simp
    ultimately have "\<exists>y. linear_while env st' ls' i True = Some y"
      by (rule less.hyps)
    with s True show ?thesis by (subst linear_while.simps) simp
  next
    case False
    with s show ?thesis by (subst linear_while.simps) simp
  qed
qed

lemma linear_for_returns:
  assumes "\<not> inline_linear_branch env"
  shows "linear_inv sz K ls \<Longrightarrow> \<forall>i \<in> set is. i < sz \<Longrightarrow>
           \<exists>y. linear_for env st ls is d = Some y"
proof (induction "is" arbitrary: st ls d)
  case Nil
  then show ?case by simp
next
  case (Cons i "is")
  from Cons.prems have i: "i < sz" by simp
  obtain st' ls' d' where w: "linear_while env st ls i d = Some (st', ls', d')"
    using linear_while_returns [OF assms Cons.prems(1) i, of st d] by auto
  have "linear_inv sz K ls'"
    using linear_while_inv [OF w Cons.prems(1) i] by simp
  then have "\<exists>y. linear_for env st' ls' is d' = Some y"
    using Cons.prems(2) by (intro Cons.IH) auto
  with w show ?case by simp
qed

lemma inline_linear_returns:
  assumes "\<not> inline_linear_branch env"
  shows "\<exists>y. inline_linear env st rules = Some y"
proof -
  let ?K = "{i. i < length rules \<and> is_output_predicate env (head_decl (rules ! i))}"
  have "linear_inv (length rules) ?K (linear_init env st rules)"
    by (rule linear_init_inv)
  moreover have "\<forall>i \<in> set [0 ..< length rules]. i < length rules" by simp
  ultimately obtain y where
    "linear_for env st (linear_init env st rules) [0 ..< length rules] False = Some y"
    using linear_for_returns [OF assms] by blast
  then show ?thesis by (cases y) (simp add: inline_linear_def)
qed

subsection \<open>The pass without branching\<close>

text \<open>
  Without \<open>:inline-linear-branch\<close>, and with collaborators as above, the pass returns;
  the example \<open>A(x) :- P(x). P(x) :- Q(x).\<close> meets the conditions.
\<close>

lemma run_stages_returns:
  assumes nb: "\<not> inline_linear_branch env"
    and c: "resolution_contract env W" and cc: "cycle_contract env source"
    and sc: "stratifier_contract env W" and s: "set source \<subseteq> W"
    and e: "m_inlined_rules st0 = []"
  shows "\<exists>y. run_stages env st0 source = Some y"
proof -
  obtain st1 where p: "plan_inlining env st0 source = Some st1"
    and i: "inlined_resolved env W st1"
    using plan_inlining_returns [OF c cc s e] by blast
  have "\<exists>st' tgt' d'. transform_rules env st1 source [] False = Some (st', tgt', d') \<and>
          set tgt' \<subseteq> W"
    using s i by (intro transform_rules_returns [OF c]) simp_all
  then obtain st2 res2 b2 where
    t: "transform_rules env st1 source [] False = Some (st2, res2, b2)" and w: "set res2 \<subseteq> W"
    by blast
  have "\<forall>r \<in> set (rs_rules (close_rules env res2)).
          r \<in> W \<and> stratified_rule (get_stratifier (close_rules env res2)) r"
    using sc w by (auto simp: stratifier_contract_def close_rules_def)
  from do_eager_inlining_returns [OF c this, of st2]
  obtain st3 res3 b3 where
    g: "do_eager_inlining env st2 (close_rules env res2) = Some (st3, res3, b3)"
    by (metis prod_cases3)
  obtain st4 res4 b4 where l: "inline_linear env st3 res3 = Some (st4, res4, b4)"
    using inline_linear_returns [OF nb, of st3 res3] by (metis prod_cases3)
  show ?thesis by (auto simp: run_stages_def p t g l)
qed

lemma run_returns:
  assumes "\<not> inline_linear_branch env"
    and "resolution_contract env W" and "cycle_contract env source"
    and "stratifier_contract env W" and "set source \<subseteq> W"
  shows "\<exists>y. run env source mc pc = Some y"
proof -
  have "m_inlined_rules (start_state mc pc) = []"
    by (simp add: start_state_def init_inliner_def)
  from run_stages_returns [OF assms this]
  obtain st res b e l where "run_stages env (start_state mc pc) source = Some (st, res, b, e, l)"
    by (metis prod_cases5)
  then show ?thesis by (auto simp: run_def)
qed


lemma ref_stratify_set:
  assumes "set rs = set rs'"
  shows "ref_stratify table rs = ref_stratify table rs'"
proof -
  have "set (occurring rs) = set (occurring rs')"
    using assms by (simp add: occurring_def)
  then have "restrict_stratum (occurring rs) = restrict_stratum (occurring rs')"
    by (intro ext) (simp add: restrict_stratum_def)
  then show ?thesis by (simp add: ref_stratify_def)
qed

lemma resolution_contract_chain: "resolution_contract env_facts (set closure_chain)"
proof -
  have n: "\<forall>r \<in> set closure_chain. norm_vars env_facts r \<in> set closure_chain \<and>
             map fst (r_pos (norm_vars env_facts r)) = map fst (r_pos r)"
    by code_simp
  have r: "\<forall>tgt \<in> set closure_chain. \<forall>src \<in> set closure_chain.
             \<forall>i \<in> set [0 ..< length (r_pos tgt)].
               case resolvent env_facts tgt src i of
                 None \<Rightarrow> True
               | Some res \<Rightarrow> res \<in> set closure_chain \<and>
                   mset (map fst (r_pos res)) \<subseteq>#
                     (mset (map fst (r_pos tgt)) - {#fst (r_pos tgt ! i)#}) +
                     mset (map fst (r_pos src))"
    by code_simp
  show ?thesis
    unfolding resolution_contract_def
  proof (intro conjI ballI allI impI)
    fix r assume "r \<in> set closure_chain"
    with n show "norm_vars env_facts r \<in> set closure_chain"
      and "map fst (r_pos (norm_vars env_facts r)) = map fst (r_pos r)" by blast+
  next
    fix tgt src i res
    assume a: "tgt \<in> set closure_chain" "src \<in> set closure_chain" "i < length (r_pos tgt)"
      "resolvent env_facts tgt src i = Some res"
    from a(3) have "i \<in> set [0 ..< length (r_pos tgt)]" by simp
    with r a(1,2) have
      "case resolvent env_facts tgt src i of
         None \<Rightarrow> True
       | Some res \<Rightarrow> res \<in> set closure_chain \<and>
           mset (map fst (r_pos res)) \<subseteq>#
             (mset (map fst (r_pos tgt)) - {#fst (r_pos tgt ! i)#}) +
             mset (map fst (r_pos src))"
      by blast
    with a(4) show "res \<in> set closure_chain" and
      "mset (map fst (r_pos res)) \<subseteq>#
         (mset (map fst (r_pos tgt)) - {#fst (r_pos tgt ! i)#}) + mset (map fst (r_pos src))"
      by simp_all
  qed
qed

lemma stratifier_contract_chain: "stratifier_contract env_facts (set closure_chain)"
proof -
  have k: "\<forall>rs \<in> set (subseqs closure_chain).
             \<forall>r \<in> set rs. stratified_rule (stratify env_facts rs) r"
    by code_simp
  have s: "stratify env_facts rs = stratify env_facts rs'" if "set rs = set rs'" for rs rs'
    using ref_stratify_set [OF that] by (simp add: env_facts_def ref_env_def)
  show ?thesis
    unfolding stratifier_contract_def
  proof (intro allI impI ballI)
    fix rs r assume a: "set rs \<subseteq> set closure_chain" "r \<in> set rs"
    then have "set rs \<in> set ` set (subseqs closure_chain)"
      by (simp add: subseqs_powset)
    then obtain rs' where m: "rs' \<in> set (subseqs closure_chain)" and e: "set rs = set rs'"
      by auto
    from k m a(2) e have "stratified_rule (stratify env_facts rs') r" by blast
    with s [OF e] show "stratified_rule (stratify env_facts rs) r" by simp
  qed
qed

lemma cycle_contract_chain: "cycle_contract env_facts prog_chain"
  unfolding cycle_contract_def by code_simp

lemma run_returns_chain:
  "\<not> inline_linear_branch env_facts \<and> resolution_contract env_facts (set closure_chain) \<and>
   cycle_contract env_facts prog_chain \<and> stratifier_contract env_facts (set closure_chain) \<and>
   set prog_chain \<subseteq> set closure_chain \<and>
   (\<exists>y. run env_facts prog_chain None None = Some y)"
proof -
  have nb: "\<not> inline_linear_branch env_facts" by code_simp
  have s: "set prog_chain \<subseteq> set closure_chain" by code_simp
  from run_returns [OF nb resolution_contract_chain cycle_contract_chain
      stratifier_contract_chain s]
    nb resolution_contract_chain cycle_contract_chain stratifier_contract_chain s
  show ?thesis by blast
qed

subsection \<open>The linear inliner with branching\<close>

lemma try_to_inline_rule_no_pc:
  "m_pc st = None \<Longrightarrow>
     try_to_inline_rule env st tgt src i = (norm_vars env tgt, resolvent env tgt src i, st)"
  by (simp add: try_to_inline_rule_def resolvent_def init_inliner_def Let_def
      split: option.splits)

lemma add_rule_facts:
  "m_preds_with_facts st = m_preds_with_facts st' \<Longrightarrow>
     add_rule env st ls r i = add_rule env st' ls r i"
  by (simp add: add_rule_def)

lemma linear_inlined_facts:
  "m_preds_with_facts st = m_preds_with_facts st' \<Longrightarrow>
     linear_inlined env st ls i r' res = linear_inlined env st' ls i r' res"
  by (simp add: linear_inlined_def add_rule_facts [of st st'])

lemma linear_init_facts:
  assumes "m_preds_with_facts st = m_preds_with_facts st'"
  shows "linear_init env st rules = linear_init env st' rules"
proof -
  have "add_rule env st = add_rule env st'"
    by (intro ext) (rule add_rule_facts [OF assms])
  then show ?thesis by (simp add: linear_init_def)
qed

lemma linear_step_branch:
  assumes "\<not> linear_break env ls i"
    and "length (index_unify env (tail_positions ls)
           (get_head (acc ls ! (index_unify env (head_positions ls) (get_tail (acc ls ! i) 0) ! 0))))
         \<noteq> 1"
    and "resolvent env (acc ls ! i)
           (acc ls ! (index_unify env (head_positions ls) (get_tail (acc ls ! i) 0) ! 0)) 0 = Some res"
    and "m_pc st = None"
  shows "linear_step env st ls i =
           (True, st, linear_inlined env st ls i (norm_vars env (acc ls ! i)) res)"
  using assms(2,3)
  by (simp add: linear_step_go [OF assms(1)] try_to_inline_rule_no_pc [OF assms(4)] Let_def)


lemma loop_first_round:
  assumes "m_pc st = None" and "m_preds_with_facts st = {pred 5}"
  shows "linear_step env_loop st (linear_init env_loop st prog_loop) 0 = (True, st, ls_loop)"
proof -
  let ?init = "linear_init env_loop st_loop prog_loop"
  have facts: "m_preds_with_facts st = m_preds_with_facts st_loop"
    using assms(2) by (simp add: st_loop_def)
  have init: "linear_init env_loop st prog_loop = ?init"
    by (rule linear_init_facts [OF facts])
  have nb: "\<not> linear_break env_loop ?init 0" by code_simp
  have k: "length (index_unify env_loop (tail_positions ?init)
             (get_head (acc ?init ! (index_unify env_loop (head_positions ?init)
                (get_tail (acc ?init ! 0) 0) ! 0)))) \<noteq> 1"
    by code_simp
  have res: "resolvent env_loop (acc ?init ! 0)
               (acc ?init ! (index_unify env_loop (head_positions ?init)
                  (get_tail (acc ?init ! 0) 0) ! 0)) 0 = Some (mk_rule 1 [2] [] [])"
    by code_simp
  have nxt: "linear_inlined env_loop st_loop ?init 0 (norm_vars env_loop (acc ?init ! 0))
               (mk_rule 1 [2] [] []) = ls_loop"
    by code_simp
  show ?thesis
    unfolding init using nxt
    by (simp add: linear_step_branch [OF nb k res assms(1)] linear_inlined_facts [OF facts])
qed

lemma loop_next_round:
  assumes "m_pc st = None" and "m_preds_with_facts st = {pred 5}"
  shows "linear_step env_loop st ls_loop 0 = (True, st, ls_loop)"
proof -
  have facts: "m_preds_with_facts st = m_preds_with_facts st_loop"
    using assms(2) by (simp add: st_loop_def)
  have nb: "\<not> linear_break env_loop ls_loop 0" by code_simp
  have k: "length (index_unify env_loop (tail_positions ls_loop)
             (get_head (acc ls_loop ! (index_unify env_loop (head_positions ls_loop)
                (get_tail (acc ls_loop ! 0) 0) ! 0)))) \<noteq> 1"
    by code_simp
  have res: "resolvent env_loop (acc ls_loop ! 0)
               (acc ls_loop ! (index_unify env_loop (head_positions ls_loop)
                  (get_tail (acc ls_loop ! 0) 0) ! 0)) 0 = Some (mk_rule 1 [2] [] [])"
    by code_simp
  have nxt: "linear_inlined env_loop st_loop ls_loop 0 (norm_vars env_loop (acc ls_loop ! 0))
               (mk_rule 1 [2] [] []) = ls_loop"
    by code_simp
  show ?thesis
    using nxt
    by (simp add: linear_step_branch [OF nb k res assms(1)] linear_inlined_facts [OF facts])
qed

lemma loop_never_returns:
  assumes "m_pc st = None" and "m_preds_with_facts st = {pred 5}"
  shows "linear_while env_loop st ls_loop 0 d = None"
proof -
  have "False"
    if "linear_while env' st' ls' i' d' = Some y" and "env' = env_loop" and "m_pc st' = None"
      and "m_preds_with_facts st' = {pred 5}" and "ls' = ls_loop" and "i' = 0"
    for env' st' ls' i' d' y
    using that
  proof (induct rule: linear_while.raw_induct [rotated, consumes 1])
    case (1 loop env' st' ls' i' d' y)
    have "linear_step env' st' ls' i' = (True, st', ls_loop)"
      using 1(3-7) loop_next_round by simp
    with 1(2) have "loop env' st' ls_loop i' True = Some y" by simp
    then show ?case using 1(1) 1(3-7) by blast
  qed
  from this [of env_loop st ls_loop 0 d] assms
  have "linear_while env_loop st ls_loop 0 d \<noteq> Some y" for y
    by blast
  then have "\<forall>y. linear_while env_loop st ls_loop 0 d \<noteq> Some y" by blast
  then show ?thesis by (simp only: not_Some_eq)
qed

lemma inline_linear_never_returns:
  assumes "m_pc st = None" and "m_preds_with_facts st = {pred 5}"
  shows "inline_linear env_loop st prog_loop = None"
proof -
  have idx: "[0 ..< length prog_loop] = [0, 1, 2]" by code_simp
  have "linear_while env_loop st (linear_init env_loop st prog_loop) 0 False = None"
    by (subst linear_while.simps)
      (simp add: loop_first_round [OF assms] loop_never_returns [OF assms])
  then show ?thesis by (simp add: inline_linear_def idx)
qed

text \<open>
  C7. The pass does not return for every input rule set. Under \<open>:inline-linear-branch\<close>
  a round of \<open>inline_linear\<close> that finds several tail unifiers resolves the rule at
  position \<open>i\<close> with the rule at position \<open>j\<close> and keeps \<open>j\<close> valid. On
  \<open>A(x) :- B(x). B(x) :- B(x). D(x) :- E(x), not B(x).\<close> the bulk and the eager stage
  change nothing, and every round of the linear inliner at position 0 resolves
  \<open>A(x) :- B(x)\<close> with \<open>B(x) :- B(x)\<close> into \<open>A(x) :- B(x)\<close> again: the
  \<open>while (true)\<close> loop never breaks and the pass never returns.
\<close>

theorem linear_branch_never_returns:
  "run env_loop prog_loop None None = None"
proof -
  let ?plan = "plan_inlining env_loop init_inliner prog_loop"
  let ?bulk = "transform_rules env_loop (the ?plan) prog_loop [] False"
  let ?eager = "do_eager_inlining env_loop (fst (the ?bulk))
                  (close_rules env_loop (fst (snd (the ?bulk))))"
  have plan: "\<not> Option.is_none ?plan" by code_simp
  have bulk: "\<not> Option.is_none ?bulk" by code_simp
  have eager: "\<not> Option.is_none ?eager" by code_simp
  have rules: "fst (snd (the ?eager)) = prog_loop" by code_simp
  have pc: "m_pc (fst (the ?eager)) = None" by code_simp
  have facts: "m_preds_with_facts (fst (the ?eager)) = {pred 5}" by code_simp
  have linear: "inline_linear env_loop (fst (the ?eager)) (fst (snd (the ?eager))) = None"
    unfolding rules by (rule inline_linear_never_returns [OF pc facts])
  have param: "inline_linear_param env_loop" by code_simp
  obtain st1 where p: "?plan = Some st1"
    using plan by (cases ?plan) simp_all
  obtain st2 res2 b2 where b: "transform_rules env_loop st1 prog_loop [] False = Some (st2, res2, b2)"
    using bulk p by (cases "transform_rules env_loop st1 prog_loop [] False") auto
  obtain st3 res3 b3 where e: "do_eager_inlining env_loop st2 (close_rules env_loop res2) = Some (st3, res3, b3)"
    using eager p b by (cases "do_eager_inlining env_loop st2 (close_rules env_loop res2)") auto
  have "inline_linear env_loop st3 res3 = None"
    using linear p b e by simp
  then have "run_stages env_loop init_inliner prog_loop = None"
    using param by (simp add: run_stages_def p b e)
  moreover have "length prog_loop \<noteq> 0" by code_simp
  moreover have "init_inliner\<lparr>m_mc := None, m_pc := None\<rparr> = init_inliner"
    by (simp add: init_inliner_def)
  ultimately show ?thesis by (simp add: run_def start_state_def)
qed

section \<open>Rules of output predicates\<close>

subsection \<open>Rules the eager stage keeps\<close>






subsection \<open>What the linear stage makes of a rule\<close>












subsection \<open>Rules over predicates with facts\<close>














end
